theory Spec2Isabelle
  imports Complex_Main "HOL-Library.Word"
begin

section \<open>Machine types of record.cpp\<close>

text \<open>
  The example is one C++ translation unit, \<^verbatim>\<open>record.cpp\<close>: two helpers that set a
  device node (\<^verbatim>\<open>SetIntValue\<close>, \<^verbatim>\<open>SetFloatValue\<close>), the recorder
  \<^verbatim>\<open>RecordVideo\<close> with the per-frame demultiplexing loop, and \<^verbatim>\<open>main\<close>.
  Integers keep their widths: \<^verbatim>\<open>uint8_t\<close>, \<^verbatim>\<open>uint32_t\<close>, \<^verbatim>\<open>size_t\<close> and
  \<^verbatim>\<open>int64_t\<close> are words, with the sizes of a 64-bit build, and arithmetic on them
  wraps (for \<^verbatim>\<open>int64_t\<close>, where C++ leaves overflow undefined, as two's complement
  does).
\<close>

type_synonym u8 = "8 word"
type_synonym u32 = "32 word"
type_synonym u64 = "64 word"
type_synonym i64 = "64 word"

text \<open>
  What the C++ leaves undefined is a fault of the model: an access outside an array, a
  division by zero (or \<^verbatim>\<open>INT64_MIN / -1\<close>).
\<close>

datatype fault = OutOfBounds | DivideError

text \<open>
  A \<^verbatim>\<open>double\<close> as far as the program uses it: it is only ever compared, never
  computed with. The comparisons are IEEE 754's, so every comparison with a NaN is false.
\<close>

datatype double = NaN | NegInf | Finite real | PosInf

fun dless :: "double \<Rightarrow> double \<Rightarrow> bool" where
  "dless NaN _ = False"
| "dless _ NaN = False"
| "dless NegInf NegInf = False"
| "dless NegInf _ = True"
| "dless (Finite a) (Finite b) = (a < b)"
| "dless (Finite a) PosInf = True"
| "dless (Finite a) NegInf = False"
| "dless PosInf _ = False"

fun dle :: "double \<Rightarrow> double \<Rightarrow> bool" where
  "dle NaN _ = False"
| "dle _ NaN = False"
| "dle a b = (a = b \<or> dless a b)"

section \<open>Setting a node: SetIntValue and SetFloatValue\<close>

text \<open>
  An integer node of the device's node map, as \<^verbatim>\<open>SetIntValue\<close> sees it through
  \<^verbatim>\<open>GetMin\<close>, \<^verbatim>\<open>GetMax\<close>, \<^verbatim>\<open>GetInc\<close> and \<^verbatim>\<open>SetValue\<close>; a float node likewise.
\<close>

record int_node =
  imin :: i64
  imax :: i64
  iinc :: i64
  ival :: i64

record float_node =
  fmin :: double
  fmax :: double
  fval :: double

text \<open>
  C++ division of \<^verbatim>\<open>int64_t\<close> truncates towards zero; \<open>sgn a * sgn b * (\<bar>a\<bar> div \<bar>b\<bar>)\<close>
  is that quotient.
\<close>

definition int64_div :: "i64 \<Rightarrow> i64 \<Rightarrow> fault + i64" where
  "int64_div a b =
     (if b = 0 \<or> (a = - (2 ^ 63) \<and> b = - 1) then Inl DivideError
      else Inr (word_of_int (sgn (sint a) * sgn (sint b) * (\<bar>sint a\<bar> div \<bar>sint b\<bar>))))"

text \<open>
  \<^verbatim>\<open>value = (((value - min) / inc) * inc) + min;\<close>
  \<^verbatim>\<open>if (value < min) value = min;  if (value > max) value = max;\<close>
  \<^verbatim>\<open>pInteger->SetValue(value);  return value;\<close>
  The comparisons are signed. The node takes the value; what \<^verbatim>\<open>SetValue\<close> of the SDK
  may refuse is not modelled.
\<close>

definition SetIntValue :: "int_node \<Rightarrow> i64 \<Rightarrow> fault + (i64 \<times> int_node)" where
  "SetIntValue pInteger v =
     (case int64_div (v - imin pInteger) (iinc pInteger) of
        Inl e \<Rightarrow> Inl e
      | Inr q \<Rightarrow>
          let v1 = q * iinc pInteger + imin pInteger;
              v2 = (if v1 <s imin pInteger then imin pInteger else v1);
              v3 = (if imax pInteger <s v2 then imax pInteger else v2)
          in Inr (v3, pInteger\<lparr>ival := v3\<rparr>))"

text \<open>
  \<^verbatim>\<open>if (value < min) value = min;  if (value > max) value = max;\<close>
  \<^verbatim>\<open>pFloat->SetValue(value);  return value;\<close>
\<close>

definition SetFloatValue :: "float_node \<Rightarrow> double \<Rightarrow> double \<times> float_node" where
  "SetFloatValue pFloat v =
     (let v1 = (if dless v (fmin pFloat) then fmin pFloat else v);
          v2 = (if dless (fmax pFloat) v1 then fmax pFloat else v1)
      in (v2, pFloat\<lparr>fval := v2\<rparr>))"

section \<open>Memory\<close>

text \<open>
  \<^verbatim>\<open>RecordVideo\<close> writes through raw pointers, so buffers live in an explicit store: the
  heap is the list of the arrays allocated so far and a pointer to an array is its
  position in that list. A cell is a byte, or \<open>None\<close> while it holds the indeterminate
  value \<^verbatim>\<open>new uint8_t[n]\<close> leaves it with. An access outside an array is a fault.
  Every access is recorded where it happens: \<open>load\<close> and \<open>store\<close> append the array and
  the offset they touch to the list of accesses they are given.
\<close>

type_synonym addr = nat
type_synonym cell = "u8 option"
type_synonym heap = "cell list list"
type_synonym access = "addr \<times> nat"

text \<open>An \<^verbatim>\<open>Arena::IImage\<close>: what \<^verbatim>\<open>GetWidth\<close>, \<^verbatim>\<open>GetHeight\<close>, \<^verbatim>\<open>GetSizeFilled\<close>
  (all \<^verbatim>\<open>size_t\<close>) and \<^verbatim>\<open>GetData\<close> return.\<close>

record image =
  imgWidth :: u64
  imgHeight :: u64
  imgSizeFilled :: u64
  imgData :: addr

text \<open>\<^verbatim>\<open>new uint8_t[n]\<close>\<close>

definition new_array :: "heap \<Rightarrow> nat \<Rightarrow> heap \<times> addr" where
  "new_array h n = (h @ [replicate n None], length h)"

text \<open>Reading \<^verbatim>\<open>p[i]\<close>: the cell, and the reads so far with this one added.\<close>

definition load :: "heap \<Rightarrow> access list \<Rightarrow> addr \<Rightarrow> nat \<Rightarrow> fault + cell \<times> access list" where
  "load h rd p i =
     (if p < length h \<and> i < length (h ! p) then Inr (h ! p ! i, rd @ [(p, i)])
      else Inl OutOfBounds)"

text \<open>Writing \<^verbatim>\<open>p[i] = c\<close>: the new heap, and the writes so far with this one added.\<close>

definition store ::
  "heap \<Rightarrow> access list \<Rightarrow> addr \<Rightarrow> nat \<Rightarrow> cell \<Rightarrow> fault + heap \<times> access list" where
  "store h wr p i c =
     (if p < length h \<and> i < length (h ! p) then Inr (h[p := (h ! p)[i := c]], wr @ [(p, i)])
      else Inl OutOfBounds)"

text \<open>
  Modelled from the spec: \<^verbatim>\<open>Arena::ImageFactory::Create\<close> belongs to the vendor's SDK
  and is not part of the repository. The spec's data model has every ChannelFrame
  ``created fresh per RawFrame per angle'' with ``no shared or cyclic ownership'', so
  \<^verbatim>\<open>Create(pData, dataSize, width, height, format)\<close> allocates the image's own buffer
  of \<open>dataSize\<close> cells and copies them from \<open>pData\<close>; \<^verbatim>\<open>GetData\<close> of the image points
  to that buffer. (\<^verbatim>\<open>record.cpp\<close> names the array it passes \<^verbatim>\<open>dummyBuffer\<close> and then
  takes each image's \<^verbatim>\<open>GetData()\<close>.)
\<close>

definition ImageFactory_Create ::
  "heap \<Rightarrow> addr \<Rightarrow> nat \<Rightarrow> u64 \<Rightarrow> u64 \<Rightarrow> fault + (heap \<times> image)" where
  "ImageFactory_Create h pData dataSize w ht =
     (if pData < length h \<and> dataSize \<le> length (h ! pData)
      then Inr (h @ [take dataSize (h ! pData)],
                \<lparr>imgWidth = w, imgHeight = ht, imgSizeFilled = of_nat dataSize,
                 imgData = length h\<rparr>)
      else Inl OutOfBounds)"

section \<open>The frame splitter (RecordVideo, lines 229 to 265)\<close>

text \<open>One assignment \<^verbatim>\<open>outputBuffer[bufferIndex] = inputBufferPtr[i + c]\<close>: a load from
  the source and a store to the output. \<open>rd\<close> and \<open>wr\<close> are the loads and the stores so
  far.\<close>

definition copy_byte ::
  "heap \<Rightarrow> access list \<Rightarrow> access list \<Rightarrow> addr \<Rightarrow> nat \<Rightarrow> addr \<Rightarrow> nat
   \<Rightarrow> fault + heap \<times> access list \<times> access list" where
  "copy_byte h rd wr src i dst k =
     (case load h rd src i of
        Inl e \<Rightarrow> Inl e
      | Inr (c, rd') \<Rightarrow>
         (case store h wr dst k c of
            Inl e \<Rightarrow> Inl e
          | Inr (h', wr') \<Rightarrow> Inr (h', rd', wr')))"

text \<open>The body of the inner loop: the four assignments, in the order of the source.
  \<^verbatim>\<open>i\<close> and \<^verbatim>\<open>bufferIndex\<close> are \<^verbatim>\<open>uint32_t\<close>.\<close>

definition split_step ::
  "heap \<Rightarrow> access list \<Rightarrow> access list \<Rightarrow> addr \<Rightarrow> addr \<Rightarrow> addr \<Rightarrow> addr \<Rightarrow> addr \<Rightarrow> u32 \<Rightarrow> u32
   \<Rightarrow> fault + heap \<times> access list \<times> access list" where
  "split_step h rd wr src o0 o45 o90 o135 bufferIndex i =
     (case copy_byte h rd wr src (unat i) o0 (unat bufferIndex) of
        Inl e \<Rightarrow> Inl e
      | Inr (h1, rd1, wr1) \<Rightarrow>
         (case copy_byte h1 rd1 wr1 src (unat (i + 1)) o45 (unat bufferIndex) of
            Inl e \<Rightarrow> Inl e
          | Inr (h2, rd2, wr2) \<Rightarrow>
             (case copy_byte h2 rd2 wr2 src (unat (i + 2)) o90 (unat bufferIndex) of
                Inl e \<Rightarrow> Inl e
              | Inr (h3, rd3, wr3) \<Rightarrow>
                  copy_byte h3 rd3 wr3 src (unat (i + 3)) o135 (unat bufferIndex))))"

text \<open>
  \<^verbatim>\<open>for (uint32_t i = 0; i < buffer_size; i += 4) { ...; bufferIndex++; }\<close>
  \<^verbatim>\<open>buffer_size\<close> is a \<^verbatim>\<open>size_t\<close>, so \<^verbatim>\<open>i\<close> is widened for the comparison; \<^verbatim>\<open>i += 4\<close>
  wraps at \<open>2 ^ 32\<close>, and the loop need not terminate: the result is an \<open>option\<close>.
  The loop itself adds nothing to \<open>rd\<close> and \<open>wr\<close>: they grow only in \<open>load\<close> and
  \<open>store\<close>.
\<close>

partial_function (option) split_loop ::
  "heap \<Rightarrow> addr \<Rightarrow> addr \<Rightarrow> addr \<Rightarrow> addr \<Rightarrow> addr \<Rightarrow> u64 \<Rightarrow> access list \<Rightarrow> access list
   \<Rightarrow> u32 \<Rightarrow> u32 \<Rightarrow> (fault + heap \<times> access list \<times> access list) option" where
  "split_loop h src o0 o45 o90 o135 buffer_size rd wr bufferIndex i =
     (if ucast i < buffer_size
      then (case split_step h rd wr src o0 o45 o90 o135 bufferIndex i of
              Inl e \<Rightarrow> Some (Inl e)
            | Inr (h', rd', wr') \<Rightarrow>
                split_loop h' src o0 o45 o90 o135 buffer_size rd' wr'
                  (bufferIndex + 1) (i + 4))
      else Some (Inr (h, rd, wr)))"

declare split_loop.simps [code]

text \<open>What one pass over a frame leaves behind: the heap, the array passed to the four
  \<^verbatim>\<open>Create\<close> calls, the four output images, and the loads and the stores of the loop,
  in the order they happened.\<close>

record split_result =
  heap_after :: heap
  dummyBuffer :: addr
  outputImage0 :: image
  outputImage45 :: image
  outputImage90 :: image
  outputImage135 :: image
  loads :: "access list"
  stores :: "access list"

text \<open>
  Lines 229 to 265 for one image: \<^verbatim>\<open>srcWidth\<close> and \<^verbatim>\<open>srcHeight\<close> are the dimensions
  cast to \<^verbatim>\<open>uint32_t\<close>, their product is a \<^verbatim>\<open>uint32_t\<close> product;
  \<^verbatim>\<open>buffer_size = GetSizeFilled() - 1\<close> is a \<^verbatim>\<open>size_t\<close> subtraction.
\<close>

definition split_frame :: "heap \<Rightarrow> image \<Rightarrow> (fault + split_result) option" where
  "split_frame h img =
     (let srcWidth = (ucast (imgWidth img) :: u32);
          srcHeight = (ucast (imgHeight img) :: u32);
          n = unat (srcWidth * srcHeight);
          (h0, dummy) = new_array h n
      in case ImageFactory_Create h0 dummy n (ucast srcWidth) (ucast srcHeight) of
           Inl e \<Rightarrow> Some (Inl e)
         | Inr (h1, out0) \<Rightarrow>
        (case ImageFactory_Create h1 dummy n (ucast srcWidth) (ucast srcHeight) of
           Inl e \<Rightarrow> Some (Inl e)
         | Inr (h2, out45) \<Rightarrow>
        (case ImageFactory_Create h2 dummy n (ucast srcWidth) (ucast srcHeight) of
           Inl e \<Rightarrow> Some (Inl e)
         | Inr (h3, out90) \<Rightarrow>
        (case ImageFactory_Create h3 dummy n (ucast srcWidth) (ucast srcHeight) of
           Inl e \<Rightarrow> Some (Inl e)
         | Inr (h4, out135) \<Rightarrow>
        (case split_loop h4 (imgData img) (imgData out0) (imgData out45) (imgData out90)
                (imgData out135) (imgSizeFilled img - 1) [] [] 0 0 of
           None \<Rightarrow> None
         | Some (Inl e) \<Rightarrow> Some (Inl e)
         | Some (Inr (h5, rd, wr)) \<Rightarrow>
             Some (Inr \<lparr>heap_after = h5, dummyBuffer = dummy, outputImage0 = out0,
                        outputImage45 = out45, outputImage90 = out90,
                        outputImage135 = out135, loads = rd, stores = wr\<rparr>))))))"

text \<open>
  A RawFrame as the spec's data model has it: \<open>width * height * 4\<close> captured bytes. The
  pixel count is positive and the byte count fits the \<^verbatim>\<open>uint32_t\<close> loop counter.
\<close>

definition raw_frame :: "heap \<Rightarrow> image \<Rightarrow> bool" where
  "raw_frame h img =
     (imgData img < length h
      \<and> 0 < unat (imgWidth img) * unat (imgHeight img)
      \<and> 4 * (unat (imgWidth img) * unat (imgHeight img)) < 2 ^ 32
      \<and> unat (imgSizeFilled img) = 4 * (unat (imgWidth img) * unat (imgHeight img))
      \<and> length (h ! imgData img) = 4 * (unat (imgWidth img) * unat (imgHeight img))
      \<and> None \<notin> set (h ! imgData img))"

text \<open>The bytes one angle's samples should be: offset \<open>c\<close> of every group of four.\<close>

definition channel :: "nat \<Rightarrow> cell list \<Rightarrow> cell list" where
  "channel c raw = map (\<lambda>k. raw ! (4 * k + c)) [0 ..< length raw div 4]"

text \<open>The buffers handed on to the four recorders, and the loads, of a result.\<close>

definition channel_frames :: "(fault + split_result) option \<Rightarrow> cell list list" where
  "channel_frames res =
     (case res of
        Some (Inr r) \<Rightarrow>
          [heap_after r ! imgData (outputImage0 r), heap_after r ! imgData (outputImage45 r),
           heap_after r ! imgData (outputImage90 r), heap_after r ! imgData (outputImage135 r)]
      | _ \<Rightarrow> [])"

definition loads_of :: "(fault + split_result) option \<Rightarrow> access list" where
  "loads_of res = (case res of Some (Inr r) \<Rightarrow> loads r | _ \<Rightarrow> [])"

text \<open>The stores of one pass of the loop body with \<^verbatim>\<open>bufferIndex\<close> \<open>k\<close>, in the order
  of the source.\<close>

definition group_stores :: "addr \<Rightarrow> addr \<Rightarrow> addr \<Rightarrow> addr \<Rightarrow> nat \<Rightarrow> access list" where
  "group_stores o0 o45 o90 o135 k = [(o0, k), (o45, k), (o90, k), (o135, k)]"

text \<open>The state of an output array while the loop runs: cells \<open>j\<close> to \<open>j + r - 1\<close> of
  \<open>buf\<close> are overwritten with the samples at offset \<open>c\<close> of groups \<open>j\<close> to \<open>j + r - 1\<close>.\<close>

fun demux_from :: "cell list \<Rightarrow> nat \<Rightarrow> cell list \<Rightarrow> nat \<Rightarrow> nat \<Rightarrow> cell list" where
  "demux_from S c buf j 0 = buf"
| "demux_from S c buf j (Suc r) = demux_from S c (buf[j := S ! (4 * j + c)]) (Suc j) r"

text \<open>The spec's scenario: the frame \<open>[10,20,30,40, 11,21,31,41]\<close>, two pixels wide and
  one high. The second frame is cut short: six bytes filled.\<close>

definition example_heap :: heap where
  "example_heap = [map Some [10, 20, 30, 40, 11, 21, 31, 41]]"

definition example_image :: image where
  "example_image = \<lparr>imgWidth = 2, imgHeight = 1, imgSizeFilled = 8, imgData = 0\<rparr>"

definition short_heap :: heap where
  "short_heap = [map Some [10, 20, 30, 40, 11, 21]]"

definition short_image :: image where
  "short_image = \<lparr>imgWidth = 2, imgHeight = 1, imgSizeFilled = 6, imgData = 0\<rparr>"

text \<open>The same frame with one byte more filled in than its \<open>w * h * 4\<close>.\<close>

definition long_heap :: heap where
  "long_heap = [map Some [10, 20, 30, 40, 11, 21, 31, 41, 99]]"

definition long_image :: image where
  "long_image = \<lparr>imgWidth = 2, imgHeight = 1, imgSizeFilled = 9, imgData = 0\<rparr>"

text \<open>Two captured frames in one heap.\<close>

definition two_frames_heap :: heap where
  "two_frames_heap =
     [map Some [10, 20, 30, 40, 11, 21, 31, 41], map Some [50, 60, 70, 80, 51, 61, 71, 81]]"

definition two_frames :: "image list" where
  "two_frames =
     [\<lparr>imgWidth = 2, imgHeight = 1, imgSizeFilled = 8, imgData = 0\<rparr>,
      \<lparr>imgWidth = 2, imgHeight = 1, imgSizeFilled = 8, imgData = 1\<rparr>]"

section \<open>RecordVideo\<close>

text \<open>
  Modelled from the spec: \<^verbatim>\<open>Save::VideoRecorder\<close> belongs to the vendor's save library
  and is not part of the repository. The spec's VideoStream is ``a sink with state
  Unopened, Open, Closed, bound to one output file path, one (width, height, frame-rate)
  triple''; \<^verbatim>\<open>Open\<close> opens it, \<^verbatim>\<open>AppendImage\<close> adds one frame at the end, \<^verbatim>\<open>Close\<close>
  finalizes the file. Failures of the encoder are not modelled.
\<close>

datatype stream_state = Unopened | Open | Closed

record 'f VideoRecorder =
  vr_width :: u64
  vr_height :: u64
  vr_fps :: double
  vr_fileName :: string
  vr_state :: stream_state
  vr_frames :: "'f list"

definition VideoRecorder_new :: "u64 \<Rightarrow> u64 \<Rightarrow> double \<Rightarrow> string \<Rightarrow> 'f VideoRecorder" where
  "VideoRecorder_new w ht fps fileName =
     \<lparr>vr_width = w, vr_height = ht, vr_fps = fps, vr_fileName = fileName,
      vr_state = Unopened, vr_frames = []\<rparr>"

definition vr_Open :: "'f VideoRecorder \<Rightarrow> 'f VideoRecorder" where
  "vr_Open r = r\<lparr>vr_state := Open\<rparr>"

definition AppendImage :: "'f VideoRecorder \<Rightarrow> 'f \<Rightarrow> 'f VideoRecorder" where
  "AppendImage r f = r\<lparr>vr_frames := vr_frames r @ [f]\<rparr>"

definition vr_Close :: "'f VideoRecorder \<Rightarrow> 'f VideoRecorder" where
  "vr_Close r = r\<lparr>vr_state := Closed\<rparr>"

text \<open>The four recorders of \<^verbatim>\<open>RecordVideo\<close>.\<close>

record 'f recorders =
  videoRecorder_0 :: "'f VideoRecorder"
  videoRecorder_45 :: "'f VideoRecorder"
  videoRecorder_90 :: "'f VideoRecorder"
  videoRecorder_135 :: "'f VideoRecorder"

text \<open>
  The append loop, lines 218 to 273, over the vector of images: split the image, then
  \<^verbatim>\<open>videoRecorder_c.AppendImage(Convert(outputImage_c, RGB8)->GetData())\<close> for the four
  angles in turn. \<^verbatim>\<open>ImageFactory::Convert\<close> is the SDK's; \<open>cnv\<close> stands for what it makes
  of an image's buffer.
\<close>

fun append_images ::
  "(cell list \<Rightarrow> 'f) \<Rightarrow> heap \<Rightarrow> 'f recorders \<Rightarrow> image list
   \<Rightarrow> (fault + heap \<times> 'f recorders) option" where
  "append_images cnv h rs [] = Some (Inr (h, rs))"
| "append_images cnv h rs (img # images) =
     (case split_frame h img of
        None \<Rightarrow> None
      | Some (Inl e) \<Rightarrow> Some (Inl e)
      | Some (Inr r) \<Rightarrow>
          append_images cnv (heap_after r)
            \<lparr>videoRecorder_0 =
               AppendImage (videoRecorder_0 rs) (cnv (heap_after r ! imgData (outputImage0 r))),
             videoRecorder_45 =
               AppendImage (videoRecorder_45 rs) (cnv (heap_after r ! imgData (outputImage45 r))),
             videoRecorder_90 =
               AppendImage (videoRecorder_90 rs) (cnv (heap_after r ! imgData (outputImage90 r))),
             videoRecorder_135 =
               AppendImage (videoRecorder_135 rs) (cnv (heap_after r ! imgData (outputImage135 r)))\<rparr>
            images)"

text \<open>
  \<^verbatim>\<open>RecordVideo(images, fps)\<close>: the parameters of all four recorders come from
  \<^verbatim>\<open>images[0]\<close> (on an empty vector that access is undefined), the recorders are
  opened, the images appended, the recorders closed.
\<close>

definition RecordVideo ::
  "(cell list \<Rightarrow> 'f) \<Rightarrow> heap \<Rightarrow> image list \<Rightarrow> double
   \<Rightarrow> (fault + heap \<times> 'f recorders) option" where
  "RecordVideo cnv h images fps =
     (case images of
        [] \<Rightarrow> Some (Inl OutOfBounds)
      | img0 # _ \<Rightarrow>
          let w = imgWidth img0; ht = imgHeight img0;
              rs = \<lparr>videoRecorder_0 = vr_Open (VideoRecorder_new w ht fps ''video_0.mp4''),
                    videoRecorder_45 = vr_Open (VideoRecorder_new w ht fps ''video_45.mp4''),
                    videoRecorder_90 = vr_Open (VideoRecorder_new w ht fps ''video_90.mp4''),
                    videoRecorder_135 = vr_Open (VideoRecorder_new w ht fps ''video_135.mp4'')\<rparr>
          in (case append_images cnv h rs images of
                None \<Rightarrow> None
              | Some (Inl e) \<Rightarrow> Some (Inl e)
              | Some (Inr (h', rs')) \<Rightarrow>
                  Some (Inr (h', \<lparr>videoRecorder_0 = vr_Close (videoRecorder_0 rs'),
                                  videoRecorder_45 = vr_Close (videoRecorder_45 rs'),
                                  videoRecorder_90 = vr_Close (videoRecorder_90 rs'),
                                  videoRecorder_135 = vr_Close (videoRecorder_135 rs')\<rparr>))))"

section \<open>main\<close>

text \<open>The command line: \<^verbatim>\<open>width\<close>, \<^verbatim>\<open>height\<close> (\<^verbatim>\<open>int64_t\<close>), \<^verbatim>\<open>numImages\<close>
  (\<^verbatim>\<open>uint32_t\<close>) and \<^verbatim>\<open>fps\<close>, with the defaults of the \<^verbatim>\<open>#define\<close>s.\<close>

record settings =
  s_width :: i64
  s_height :: i64
  s_numImages :: u32
  s_fps :: double

definition default_settings :: settings where
  "default_settings = \<lparr>s_width = 2448, s_height = 2048, s_numImages = 50, s_fps = Finite 10\<rparr>"

text \<open>
  The argument loop, lines 304 to 339, over \<^verbatim>\<open>argv[1..]\<close>; \<open>Inl c\<close> is \<^verbatim>\<open>return c\<close>.
  An option that is the last argument has no value and falls through to the last
  branch. \<^verbatim>\<open>strtol\<close> and \<^verbatim>\<open>strtof\<close> are the C library's and are parameters.
\<close>

fun parse_args ::
  "(string \<Rightarrow> i64) \<Rightarrow> (string \<Rightarrow> double) \<Rightarrow> string list \<Rightarrow> settings \<Rightarrow> int + settings" where
  "parse_args strtol strtof [] s = Inr s"
| "parse_args strtol strtof (a # rest) s =
     (if a = ''-w'' \<and> rest \<noteq> []
        then parse_args strtol strtof (tl rest) (s\<lparr>s_width := strtol (hd rest)\<rparr>)
      else if a = ''-h'' \<and> rest \<noteq> []
        then parse_args strtol strtof (tl rest) (s\<lparr>s_height := strtol (hd rest)\<rparr>)
      else if a = ''-n'' \<and> rest \<noteq> []
        then parse_args strtol strtof (tl rest) (s\<lparr>s_numImages := ucast (strtol (hd rest))\<rparr>)
      else if a = ''-fps'' \<and> rest \<noteq> []
        then (if dle (strtof (hd rest)) (Finite 0) then Inl (- 1)
              else parse_args strtol strtof (tl rest) (s\<lparr>s_fps := strtof (hd rest)\<rparr>))
      else if a = ''--help'' then Inl 0
      else Inl (- 1))"

text \<open>The nodes of the device that \<^verbatim>\<open>main\<close> reads and writes, and whether it streams.\<close>

record device =
  AcquisitionMode :: string
  AcquisitionFrameRateEnable :: bool
  AcquisitionFrameRate :: float_node
  PixelFormat :: string
  Width :: int_node
  Height :: int_node
  StreamAutoNegotiatePacketSize :: bool
  StreamPacketResendEnable :: bool
  streaming :: bool

text \<open>Lines 392 to 414: the initial settings that are stored. The frame rate is read
  only when the frame rate is enabled; otherwise the variable keeps its \<^verbatim>\<open>0.0\<close>.\<close>

record saved =
  acquisitionModeInitial :: string
  frameRateEnableInitial :: bool
  frameRateInitial :: double
  imageWidthInitial :: i64
  imageHeightInitial :: i64

definition store_initial :: "device \<Rightarrow> saved" where
  "store_initial dev =
     \<lparr>acquisitionModeInitial = AcquisitionMode dev,
      frameRateEnableInitial = AcquisitionFrameRateEnable dev,
      frameRateInitial =
        (if AcquisitionFrameRateEnable dev then fval (AcquisitionFrameRate dev) else Finite 0),
      imageWidthInitial = ival (Width dev),
      imageHeightInitial = ival (Height dev)\<rparr>"

text \<open>Lines 416 to 462: the device is configured and the stream started. The result
  carries the width, height and frame rate that the setters returned.\<close>

definition configure :: "device \<Rightarrow> settings \<Rightarrow> fault + (settings \<times> device)" where
  "configure dev s =
     (let dev1 = dev\<lparr>AcquisitionMode := ''Continuous''\<rparr>;
          dev2 = dev1\<lparr>PixelFormat := ''PolarizedAngles_0d_45d_90d_135d_Mono8''\<rparr>
      in case SetIntValue (Width dev2) (s_width s) of
           Inl e \<Rightarrow> Inl e
         | Inr (w, wn) \<Rightarrow>
        (case SetIntValue (Height dev2) (s_height s) of
           Inl e \<Rightarrow> Inl e
         | Inr (ht, hn) \<Rightarrow>
             let dev4 = dev2\<lparr>Width := wn, Height := hn\<rparr>;
                 dev5 = dev4\<lparr>AcquisitionFrameRateEnable := True\<rparr>;
                 (fps, fnode) = SetFloatValue (AcquisitionFrameRate dev5) (s_fps s);
                 dev6 = dev5\<lparr>AcquisitionFrameRate := fnode\<rparr>;
                 dev7 = dev6\<lparr>StreamAutoNegotiatePacketSize := True,
                             StreamPacketResendEnable := True\<rparr>
             in Inr (s\<lparr>s_width := w, s_height := ht, s_fps := fps\<rparr>,
                     dev7\<lparr>streaming := True\<rparr>)))"

text \<open>Lines 497 to 512: the stored settings are written back.\<close>

definition restore :: "device \<Rightarrow> saved \<Rightarrow> fault + device" where
  "restore dev sv =
     (case SetIntValue (Width dev) (imageWidthInitial sv) of
        Inl e \<Rightarrow> Inl e
      | Inr (w, wn) \<Rightarrow>
     (case SetIntValue (Height dev) (imageHeightInitial sv) of
        Inl e \<Rightarrow> Inl e
      | Inr (ht, hn) \<Rightarrow>
          let dev2 = dev\<lparr>Width := wn, Height := hn\<rparr>;
              dev3 = dev2\<lparr>AcquisitionMode := acquisitionModeInitial sv\<rparr>;
              dev4 = dev3\<lparr>AcquisitionFrameRateEnable := frameRateEnableInitial sv\<rparr>
          in Inr (if frameRateEnableInitial sv
                  then dev4\<lparr>AcquisitionFrameRate :=
                         snd (SetFloatValue (AcquisitionFrameRate dev4) (frameRateInitial sv))\<rparr>
                  else dev4)))"

text \<open>
  What \<^verbatim>\<open>GetImage(2000)\<close> hands over: an image of the device, or an exception (the
  timeout).
\<close>

datatype exn = GenericException | StdException | OtherException

record frame =
  frWidth :: u64
  frHeight :: u64
  frSizeFilled :: u64
  frData :: "u8 list"

text \<open>
  Modelled from the spec: \<^verbatim>\<open>Arena::ImageFactory::Copy\<close> is the SDK's. The spec's
  RawFrame is ``an opaque byte buffer'', ``owned transiently by the capture loop;
  immutable once captured'', so \<^verbatim>\<open>Copy\<close> puts the bytes of the image into a buffer of
  their own and keeps its dimensions and filled size.
\<close>

definition ImageFactory_Copy :: "heap \<Rightarrow> frame \<Rightarrow> heap \<times> image" where
  "ImageFactory_Copy h fr =
     (h @ [map Some (frData fr)],
      \<lparr>imgWidth = frWidth fr, imgHeight = frHeight fr, imgSizeFilled = frSizeFilled fr,
       imgData = length h\<rparr>)"

text \<open>
  The capture loop, lines 465 to 483: \<^verbatim>\<open>for (unsigned int i = 0; i < numImages; i++)\<close>
  with \<^verbatim>\<open>images.push_back(Copy(GetImage(2000)))\<close>. \<open>GetImage i\<close> is the outcome of the
  call of round \<open>i\<close>; an exception leaves the loop and the \<^verbatim>\<open>try\<close> block.
\<close>

function capture ::
  "(nat \<Rightarrow> exn + frame) \<Rightarrow> nat \<Rightarrow> nat \<Rightarrow> heap \<Rightarrow> image list \<Rightarrow> exn + heap \<times> image list" where
  "capture GetImage numImages i h images =
     (if i < numImages
      then (case GetImage i of
              Inl e \<Rightarrow> Inl e
            | Inr fr \<Rightarrow>
                capture GetImage numImages (Suc i) (fst (ImageFactory_Copy h fr))
                  (images @ [snd (ImageFactory_Copy h fr)]))
      else Inr (h, images))"
  by pat_completeness auto
termination
  by (relation "measure (\<lambda>(GetImage, numImages, i, h, images). numImages - i)") auto

declare capture.simps [simp del]

text \<open>
  What the process reads besides the device: its arguments, the character answered to
  ``Proceed with example?'', the devices found, and the outcome of every \<^verbatim>\<open>GetImage\<close>.
\<close>

record environment =
  argv :: "string list"
  answer :: char
  devices :: "device list"
  GetImage :: "nat \<Rightarrow> exn + frame"

text \<open>How the process ends: its exit code, the devices as it leaves them, and the four
  recorders if \<^verbatim>\<open>RecordVideo\<close> got as far as closing them.\<close>

record 'f outcome =
  exit_code :: int
  devices_after :: "device list"
  videos :: "'f recorders option"

text \<open>
  The \<^verbatim>\<open>try\<close> block of \<^verbatim>\<open>main\<close>, lines 371 to 531, on the first device. The two early
  \<^verbatim>\<open>return 0\<close> come before anything is stored or set. Each of the three \<^verbatim>\<open>catch\<close>
  clauses only sets \<^verbatim>\<open>exceptionThrown\<close>, and \<^verbatim>\<open>main\<close> then returns \<open>-1\<close>.
\<close>

definition session ::
  "(cell list \<Rightarrow> 'f) \<Rightarrow> environment \<Rightarrow> settings \<Rightarrow> (fault + 'f outcome) option" where
  "session cnv env s =
     (case devices env of
        [] \<Rightarrow> Some (Inr \<lparr>exit_code = 0, devices_after = [], videos = None\<rparr>)
      | dev # others \<Rightarrow>
          if s_numImages s = 0
          then Some (Inr \<lparr>exit_code = 0, devices_after = dev # others, videos = None\<rparr>)
          else
            let sv = store_initial dev
            in (case configure dev s of
                  Inl e \<Rightarrow> Some (Inl e)
                | Inr (s', dev1) \<Rightarrow>
               (case capture (GetImage env) (unat (s_numImages s')) 0 [] [] of
                  Inl e \<Rightarrow>
                    Some (Inr \<lparr>exit_code = - 1, devices_after = dev1 # others, videos = None\<rparr>)
                | Inr (h, images) \<Rightarrow>
                    let dev2 = dev1\<lparr>streaming := False\<rparr>
                    in (case RecordVideo cnv h images (s_fps s') of
                          None \<Rightarrow> None
                        | Some (Inl e) \<Rightarrow> Some (Inl e)
                        | Some (Inr (h', rs)) \<Rightarrow>
                            (case restore dev2 sv of
                               Inl e \<Rightarrow> Some (Inl e)
                             | Inr dev3 \<Rightarrow>
                                 Some (Inr \<lparr>exit_code = 0, devices_after = dev3 # others,
                                            videos = Some rs\<rparr>))))))"

text \<open>
  \<^verbatim>\<open>main\<close>: the arguments are parsed, a zero width or height is refused (line 341), the
  user is asked whether to proceed, and the \<^verbatim>\<open>try\<close> block runs.
\<close>

definition main ::
  "(cell list \<Rightarrow> 'f) \<Rightarrow> (string \<Rightarrow> i64) \<Rightarrow> (string \<Rightarrow> double) \<Rightarrow> environment
   \<Rightarrow> (fault + 'f outcome) option" where
  "main cnv strtol strtof env =
     (case parse_args strtol strtof (argv env) default_settings of
        Inl c \<Rightarrow> Some (Inr \<lparr>exit_code = c, devices_after = devices env, videos = None\<rparr>)
      | Inr s \<Rightarrow>
          if s_height s = 0 \<or> s_width s = 0
          then Some (Inr \<lparr>exit_code = - 1, devices_after = devices env, videos = None\<rparr>)
          else if answer env \<noteq> CHR ''y''
          then Some (Inr \<lparr>exit_code = - 1, devices_after = devices env, videos = None\<rparr>)
          else session cnv env s)"

section \<open>Well-formed devices and captured frames\<close>

text \<open>
  The state a device's integer node is in: the value lies between a non-negative minimum
  and the maximum, on the grid of the (positive) increment. A float node's value lies
  between its bounds.
\<close>

definition int_node_ok :: "int_node \<Rightarrow> bool" where
  "int_node_ok n =
     (0 \<le>s imin n \<and> imin n \<le>s ival n \<and> ival n \<le>s imax n \<and> 0 <s iinc n
      \<and> (sint (ival n) - sint (imin n)) mod sint (iinc n) = 0)"

definition float_node_ok :: "float_node \<Rightarrow> bool" where
  "float_node_ok n = (dle (fmin n) (fval n) \<and> dle (fval n) (fmax n))"

definition captured_frame :: "frame \<Rightarrow> bool" where
  "captured_frame fr =
     (0 < unat (frWidth fr) * unat (frHeight fr)
      \<and> 4 * (unat (frWidth fr) * unat (frHeight fr)) < 2 ^ 32
      \<and> unat (frSizeFilled fr) = 4 * (unat (frWidth fr) * unat (frHeight fr))
      \<and> length (frData fr) = 4 * (unat (frWidth fr) * unat (frHeight fr)))"

text \<open>Example runs: a decimal \<^verbatim>\<open>strtol\<close> for digit strings, a device, two frames of
  two pixels, and three environments.\<close>

definition strtol_digits :: "string \<Rightarrow> i64" where
  "strtol_digits s = foldl (\<lambda>a c. 10 * a + of_nat (of_char c - 48)) 0 s"

definition example_device :: device where
  "example_device =
     \<lparr>AcquisitionMode = ''SingleFrame'', AcquisitionFrameRateEnable = True,
      AcquisitionFrameRate = \<lparr>fmin = Finite 1, fmax = Finite 30, fval = Finite 5\<rparr>,
      PixelFormat = ''Mono8'',
      Width = \<lparr>imin = 1, imax = 2448, iinc = 1, ival = 1024\<rparr>,
      Height = \<lparr>imin = 1, imax = 2048, iinc = 1, ival = 768\<rparr>,
      StreamAutoNegotiatePacketSize = False, StreamPacketResendEnable = False,
      streaming = False\<rparr>"

definition example_frame :: "nat \<Rightarrow> frame" where
  "example_frame i =
     \<lparr>frWidth = 2, frHeight = 1, frSizeFilled = 8,
      frData = (if i = 0 then [10, 20, 30, 40, 11, 21, 31, 41]
                else [50, 60, 70, 80, 51, 61, 71, 81])\<rparr>"

definition example_env :: environment where
  "example_env =
     \<lparr>argv = [''-w'', ''2'', ''-h'', ''1'', ''-n'', ''2''], answer = CHR ''y'',
      devices = [example_device], GetImage = (\<lambda>i. Inr (example_frame i))\<rparr>"

definition timeout_env :: environment where
  "timeout_env =
     \<lparr>argv = [''-w'', ''2'', ''-h'', ''1'', ''-n'', ''2''], answer = CHR ''y'',
      devices = [example_device],
      GetImage = (\<lambda>i. if i = 1 then Inl GenericException else Inr (example_frame i))\<rparr>"

definition zero_width_env :: environment where
  "zero_width_env =
     \<lparr>argv = [''-w'', ''0'', ''-h'', ''100''], answer = CHR ''y'',
      devices = [example_device], GetImage = (\<lambda>i. Inr (example_frame i))\<rparr>"

section \<open>Clamping\<close>

lemma dle_refl: "a \<noteq> NaN \<Longrightarrow> dle a a"
  by (cases a) simp_all

lemma not_dless_dle: "a \<noteq> NaN \<Longrightarrow> b \<noteq> NaN \<Longrightarrow> \<not> dless a b \<Longrightarrow> dle b a"
  by (cases a; cases b) auto

lemma dle_not_NaN: "dle a b \<Longrightarrow> a \<noteq> NaN \<and> b \<noteq> NaN"
  by (cases a; cases b) auto

lemma SetIntValue_range:
  assumes "imin n \<le>s imax n" and "0 <s iinc n"
  shows "\<exists>v. SetIntValue n x = Inr (v, n\<lparr>ival := v\<rparr>) \<and> imin n \<le>s v \<and> v \<le>s imax n"
proof -
  from assms(2) have nz: "iinc n \<noteq> 0" by auto
  from assms(2) have "iinc n \<noteq> - 1"
    by (auto simp: word_sless_alt)
  with nz obtain q where q: "int64_div (x - imin n) (iinc n) = Inr q"
    by (simp add: int64_div_def)
  show ?thesis
    using assms(1) by (auto simp: SetIntValue_def q Let_def word_sle_eq word_sless_alt)
qed

lemma SetFloatValue_range:
  assumes "dle (fmin f) (fmax f)" and "y \<noteq> NaN"
  shows "dle (fmin f) (fst (SetFloatValue f y)) \<and> dle (fst (SetFloatValue f y)) (fmax f)
         \<and> snd (SetFloatValue f y) = f\<lparr>fval := fst (SetFloatValue f y)\<rparr>"
proof -
  from assms(1) have nn: "fmin f \<noteq> NaN" "fmax f \<noteq> NaN"
    using dle_not_NaN by blast+
  show ?thesis
    using assms nn
    by (auto simp: SetFloatValue_def Let_def dle_refl not_dless_dle)
qed

text \<open>
  For a node with \<open>min \<le> max\<close> and a positive increment, \<^verbatim>\<open>SetIntValue\<close> never faults
  and never rejects: for every requested 64-bit value it stores and returns a value
  between the node's minimum and maximum. \<^verbatim>\<open>SetFloatValue\<close> does so for every requested
  value but a NaN.
\<close>

lemma SetValue_clamps_into_range:
  assumes "imin n \<le>s imax n" and "0 <s iinc n"
    and "dle (fmin f) (fmax f)" and "y \<noteq> NaN"
  shows "(\<exists>v. SetIntValue n x = Inr (v, n\<lparr>ival := v\<rparr>) \<and> imin n \<le>s v \<and> v \<le>s imax n)
       \<and> (\<exists>r. SetFloatValue f y = (r, f\<lparr>fval := r\<rparr>) \<and> dle (fmin f) r \<and> dle r (fmax f))"
proof
  show "\<exists>v. SetIntValue n x = Inr (v, n\<lparr>ival := v\<rparr>) \<and> imin n \<le>s v \<and> v \<le>s imax n"
    using assms(1,2) by (rule SetIntValue_range)
next
  have "SetFloatValue f y = (fst (SetFloatValue f y), f\<lparr>fval := fst (SetFloatValue f y)\<rparr>)"
    using SetFloatValue_range [OF assms(3,4)] by (metis prod.collapse)
  then show "\<exists>r. SetFloatValue f y = (r, f\<lparr>fval := r\<rparr>) \<and> dle (fmin f) r \<and> dle r (fmax f)"
    using SetFloatValue_range [OF assms(3,4)] by blast
qed

lemma SetValue_clamps_example:
  "SetIntValue \<lparr>imin = 4, imax = 2448, iinc = 4, ival = 2448\<rparr> 5000
     = Inr (2448, \<lparr>imin = 4, imax = 2448, iinc = 4, ival = 2448\<rparr>)
   \<and> SetFloatValue \<lparr>fmin = Finite 1, fmax = Finite 30, fval = Finite 5\<rparr> (Finite 100)
     = (Finite 30, \<lparr>fmin = Finite 1, fmax = Finite 30, fval = Finite 30\<rparr>)"
  by (simp add: SetIntValue_def SetFloatValue_def int64_div_def word_sless_alt word_sle_eq
        Let_def)

text \<open>
  C7. \<^verbatim>\<open>SetFloatValue\<close> does not return a value within \<open>[min, max]\<close> for every request.
  The frame rate \<^verbatim>\<open>-fps nan\<close> is a NaN; the test \<^verbatim>\<open>fps <= 0\<close> of \<^verbatim>\<open>main\<close> is false for
  it and the arguments are accepted. On a frame-rate node with minimum 1 and maximum 30
  the NaN is neither below the minimum nor above the maximum, so neither branch of
  \<^verbatim>\<open>SetFloatValue\<close> replaces it: NaN is written to the node and returned, and it is not
  between 1 and 30. The function's own comment (lines 116 to 118) says it ``ensures
  over minimum'' and ``ensures below maximum''.
\<close>

theorem SetFloatValue_NaN_escapes_range:
  "parse_args strtol_digits (\<lambda>_. NaN) [''-fps'', ''nan''] default_settings
     = Inr (default_settings\<lparr>s_fps := NaN\<rparr>)
   \<and> SetFloatValue \<lparr>fmin = Finite 1, fmax = Finite 30, fval = Finite 5\<rparr> NaN
     = (NaN, \<lparr>fmin = Finite 1, fmax = Finite 30, fval = NaN\<rparr>)
   \<and> dle (Finite 1) (Finite 30)
   \<and> \<not> dle (Finite 1) NaN \<and> \<not> dle NaN (Finite 30)"
  by (simp add: SetFloatValue_def)

section \<open>The splitter on a RawFrame\<close>

lemma length_demux_from [simp]: "length (demux_from S c buf j r) = length buf"
  by (induction r arbitrary: buf j) simp_all

lemma nth_demux_from:
  "k < length buf \<Longrightarrow>
   demux_from S c buf j r ! k = (if j \<le> k \<and> k < j + r then S ! (4 * k + c) else buf ! k)"
proof (induction r arbitrary: buf j)
  case 0
  then show ?case by auto
next
  case (Suc r)
  have "k = j \<or> k < j \<or> Suc j \<le> k" by arith
  then show ?case
    using Suc.prems by (auto simp: Suc.IH nth_list_update)
qed

lemma demux_from_channel:
  assumes "length buf = n" and "length S = 4 * n"
  shows "demux_from S c buf 0 n = channel c S"
  using assms by (auto simp: list_eq_iff_nth_eq nth_demux_from channel_def)

lemma copy_byte_ok:
  assumes "s < length h" "i < length (h ! s)" "d < length h" "k < length (h ! d)"
  shows "copy_byte h rd wr s i d k =
         Inr (h[d := (h ! d)[k := h ! s ! i]], rd @ [(s, i)], wr @ [(d, k)])"
  using assms by (simp add: copy_byte_def load_def store_def)

lemma split_step_ok:
  assumes len: "s < length h" "a0 < length h" "a1 < length h" "a2 < length h" "a3 < length h"
    and dist: "distinct [s, a0, a1, a2, a3]"
    and rd: "unat i + 3 < length (h ! s)" "unat i + 3 < 2 ^ 32"
    and wr: "unat b < length (h ! a0)" "unat b < length (h ! a1)"
            "unat b < length (h ! a2)" "unat b < length (h ! a3)"
  shows "split_step h rd wr s a0 a1 a2 a3 b i =
         Inr (h[a0 := (h ! a0)[unat b := h ! s ! unat i],
                a1 := (h ! a1)[unat b := h ! s ! (unat i + 1)],
                a2 := (h ! a2)[unat b := h ! s ! (unat i + 2)],
                a3 := (h ! a3)[unat b := h ! s ! (unat i + 3)]],
              rd @ [(s, unat i), (s, unat i + 1), (s, unat i + 2), (s, unat i + 3)],
              wr @ group_stores a0 a1 a2 a3 (unat b))"
proof -
  have u1: "unat (i + 1) = unat i + 1" and u2: "unat (i + 2) = unat i + 2"
    and u3: "unat (i + 3) = unat i + 3"
    using rd(2) by (simp_all add: unat_word_ariths)
  let ?h1 = "h[a0 := (h ! a0)[unat b := h ! s ! unat i]]"
  let ?h2 = "?h1[a1 := (h ! a1)[unat b := h ! s ! (unat i + 1)]]"
  let ?h3 = "?h2[a2 := (h ! a2)[unat b := h ! s ! (unat i + 2)]]"
  let ?h4 = "?h3[a3 := (h ! a3)[unat b := h ! s ! (unat i + 3)]]"
  have d: "a0 \<noteq> s" "a1 \<noteq> s" "a2 \<noteq> s" "a3 \<noteq> s" "a0 \<noteq> a1" "a0 \<noteq> a2" "a0 \<noteq> a3"
    "a1 \<noteq> a2" "a1 \<noteq> a3" "a2 \<noteq> a3"
    using dist by auto
  have c1: "\<And>r w. copy_byte h r w s (unat i) a0 (unat b)
                 = Inr (?h1, r @ [(s, unat i)], w @ [(a0, unat b)])"
    using len rd(1) wr by (simp add: copy_byte_ok)
  have c2: "\<And>r w. copy_byte ?h1 r w s (unat (i + 1)) a1 (unat b)
                 = Inr (?h2, r @ [(s, unat i + 1)], w @ [(a1, unat b)])"
    using copy_byte_ok [of s ?h1 "unat i + 1" a1 "unat b"] len d rd(1) wr
    by (simp add: u1)
  have c3: "\<And>r w. copy_byte ?h2 r w s (unat (i + 2)) a2 (unat b)
                 = Inr (?h3, r @ [(s, unat i + 2)], w @ [(a2, unat b)])"
    using copy_byte_ok [of s ?h2 "unat i + 2" a2 "unat b"] len d rd(1) wr
    by (simp add: u2)
  have c4: "\<And>r w. copy_byte ?h3 r w s (unat (i + 3)) a3 (unat b)
                 = Inr (?h4, r @ [(s, unat i + 3)], w @ [(a3, unat b)])"
    using copy_byte_ok [of s ?h3 "unat i + 3" a3 "unat b"] len d rd(1) wr
    by (simp add: u3)
  show ?thesis
    by (simp only: split_step_def c1 c2 c3 c4 sum.case prod.case group_stores_def
          append_assoc append.simps)
qed


lemma upd4_absorb:
  assumes "distinct [a0, a1, a2, a3]"
    and "a0 < length h" "a1 < length h" "a2 < length h" "a3 < length h"
  shows "h[a0 := p0, a1 := p1, a2 := p2, a3 := p3, a0 := q0, a1 := q1, a2 := q2, a3 := q3]
         = h[a0 := q0, a1 := q1, a2 := q2, a3 := q3]"
  using assms by (auto simp: list_eq_iff_nth_eq nth_list_update)

lemma ucast_u32_less_iff: "(ucast (i :: u32) < (n :: u64)) = (unat i < unat n)"
proof -
  have "unat (ucast i :: u64) = unat i"
    by (simp add: unsigned_ucast_eq take_bit_nat_eq_self unsigned_less [of i, THEN less_trans])
  then show ?thesis
    by (simp add: word_less_nat_alt)
qed

lemma upt_group:
  "[4 * j ..< 4 * (j + Suc r)] =
   [4 * j, 4 * j + 1, 4 * j + 2, 4 * j + 3] @ [4 * Suc j ..< 4 * (Suc j + r)]"
proof -
  have a: "4 * (j + Suc r) = 4 * j + 4 + 4 * r" "4 * Suc j = 4 * j + 4"
    "4 * (Suc j + r) = 4 * j + 4 + 4 * r"
    by simp_all
  have "[4 * j ..< 4 * j + 4 + 4 * r] = [4 * j ..< 4 * j + 4] @ [4 * j + 4 ..< 4 * j + 4 + 4 * r]"
    by (rule upt_add_eq_append) simp
  moreover have "[4 * j ..< 4 * j + 4] = [4 * j, 4 * j + 1, 4 * j + 2, 4 * j + 3]"
    by (simp add: upt_rec)
  ultimately show ?thesis
    unfolding a by (simp only:)
qed

lemma split_loop_run:
  assumes len: "s < length h" "a0 < length h" "a1 < length h" "a2 < length h" "a3 < length h"
    and dist: "distinct [s, a0, a1, a2, a3]"
    and idx: "unat i = 4 * j" "unat b = j"
    and bnd: "4 * (j + r) \<le> length (h ! s)" "4 * (j + r) < 2 ^ 32"
    and wr: "j + r \<le> length (h ! a0)" "j + r \<le> length (h ! a1)"
            "j + r \<le> length (h ! a2)" "j + r \<le> length (h ! a3)"
    and stop: "unat bs \<le> 4 * (j + r)" "r = 0 \<or> 4 * (j + r) < unat bs + 4"
  shows "split_loop h s a0 a1 a2 a3 bs rd wr b i =
         Some (Inr (h[a0 := demux_from (h ! s) 0 (h ! a0) j r,
                      a1 := demux_from (h ! s) 1 (h ! a1) j r,
                      a2 := demux_from (h ! s) 2 (h ! a2) j r,
                      a3 := demux_from (h ! s) 3 (h ! a3) j r],
                    rd @ map (Pair s) [4 * j ..< 4 * (j + r)],
                    wr @ concat (map (group_stores a0 a1 a2 a3) [j ..< j + r])))"
  using assms
proof (induction r arbitrary: h rd wr j b i)
  case 0
  then have "\<not> ucast i < bs"
    by (simp add: ucast_u32_less_iff)
  then show ?case
    by (subst split_loop.simps) simp
next
  case (Suc r)
  let ?S = "h ! s"
  let ?h1 = "h[a0 := (h ! a0)[unat b := ?S ! unat i],
               a1 := (h ! a1)[unat b := ?S ! (unat i + 1)],
               a2 := (h ! a2)[unat b := ?S ! (unat i + 2)],
               a3 := (h ! a3)[unat b := ?S ! (unat i + 3)]]"
  have d: "a0 \<noteq> s" "a1 \<noteq> s" "a2 \<noteq> s" "a3 \<noteq> s" "a0 \<noteq> a1" "a0 \<noteq> a2" "a0 \<noteq> a3"
    "a1 \<noteq> a2" "a1 \<noteq> a3" "a2 \<noteq> a3" and d4: "distinct [a0, a1, a2, a3]"
    using Suc.prems(6) by auto
  have cont: "ucast i < bs"
    using Suc.prems by (simp add: ucast_u32_less_iff)
  let ?rd1 = "rd @ [(s, unat i), (s, unat i + 1), (s, unat i + 2), (s, unat i + 3)]"
  let ?wr1 = "wr @ group_stores a0 a1 a2 a3 (unat b)"
  have step: "split_step h rd wr s a0 a1 a2 a3 b i = Inr (?h1, ?rd1, ?wr1)"
    using Suc.prems by (intro split_step_ok) simp_all
  have i4: "unat (i + 4) = 4 * Suc j" and b1: "unat (b + 1) = Suc j"
    and i123: "unat (i + 1) = 4 * j + 1" "unat (i + 2) = 4 * j + 2" "unat (i + 3) = 4 * j + 3"
    using Suc.prems(7,8,10) by (simp_all add: unat_word_ariths)
  have S1: "?h1 ! s = ?S"
    using d by simp
  have o: "?h1 ! a0 = (h ! a0)[j := ?S ! (4 * j + 0)]"
    "?h1 ! a1 = (h ! a1)[j := ?S ! (4 * j + 1)]"
    "?h1 ! a2 = (h ! a2)[j := ?S ! (4 * j + 2)]"
    "?h1 ! a3 = (h ! a3)[j := ?S ! (4 * j + 3)]"
    using d Suc.prems(1-5,7,8) by simp_all
  have IH: "split_loop ?h1 s a0 a1 a2 a3 bs ?rd1 ?wr1 (b + 1) (i + 4) =
            Some (Inr (?h1[a0 := demux_from (?h1 ! s) 0 (?h1 ! a0) (Suc j) r,
                      a1 := demux_from (?h1 ! s) 1 (?h1 ! a1) (Suc j) r,
                      a2 := demux_from (?h1 ! s) 2 (?h1 ! a2) (Suc j) r,
                      a3 := demux_from (?h1 ! s) 3 (?h1 ! a3) (Suc j) r],
                    ?rd1 @ map (Pair s) [4 * Suc j ..< 4 * (Suc j + r)],
                    ?wr1 @ concat (map (group_stores a0 a1 a2 a3) [Suc j ..< Suc j + r])))"
    using Suc.prems d by (intro Suc.IH) (simp_all add: i4 b1 S1 o)
  have heap_eq: "?h1[a0 := demux_from (?h1 ! s) 0 (?h1 ! a0) (Suc j) r,
                      a1 := demux_from (?h1 ! s) 1 (?h1 ! a1) (Suc j) r,
                      a2 := demux_from (?h1 ! s) 2 (?h1 ! a2) (Suc j) r,
                      a3 := demux_from (?h1 ! s) 3 (?h1 ! a3) (Suc j) r]
              = h[a0 := demux_from ?S 0 (h ! a0) j (Suc r),
                      a1 := demux_from ?S 1 (h ! a1) j (Suc r),
                      a2 := demux_from ?S 2 (h ! a2) j (Suc r),
                      a3 := demux_from ?S 3 (h ! a3) j (Suc r)]"
    unfolding S1 o using Suc.prems(1-5) by (simp only: upd4_absorb [OF d4] demux_from.simps)
  have rd_eq: "?rd1 @ map (Pair s) [4 * Suc j ..< 4 * (Suc j + r)]
                 = rd @ map (Pair s) [4 * j ..< 4 * (j + Suc r)]"
    unfolding upt_group Suc.prems(7) by simp
  have "[j ..< j + Suc r] = j # [Suc j ..< Suc j + r]"
    by (simp add: upt_conv_Cons)
  then have wr_eq: "?wr1 @ concat (map (group_stores a0 a1 a2 a3) [Suc j ..< Suc j + r])
                 = wr @ concat (map (group_stores a0 a1 a2 a3) [j ..< j + Suc r])"
    unfolding Suc.prems(8) by simp
  show ?case
    by (subst split_loop.simps)
       (simp only: cont if_True step sum.case prod.case IH heap_eq rd_eq wr_eq)
qed


lemma upd_tail:
  "(h @ [r0, r1, r2, r3, r4])[length h + 1 := x1, length h + 2 := x2, length h + 3 := x3,
      length h + 4 := x4] = h @ [r0, x1, x2, x3, x4]"
  by (simp add: list_update_append)

lemma raw_frame_dims:
  assumes "raw_frame h img"
  shows "unat (ucast (imgWidth img) :: u32) = unat (imgWidth img)"
    and "unat (ucast (imgHeight img) :: u32) = unat (imgHeight img)"
    and "unat ((ucast (imgWidth img) :: u32) * ucast (imgHeight img))
           = unat (imgWidth img) * unat (imgHeight img)"
    and "(ucast (ucast (imgWidth img) :: u32) :: u64) = imgWidth img"
    and "(ucast (ucast (imgHeight img) :: u32) :: u64) = imgHeight img"
    and "unat (imgSizeFilled img - 1) = 4 * (unat (imgWidth img) * unat (imgHeight img)) - 1"
proof -
  let ?w = "unat (imgWidth img)" and ?h = "unat (imgHeight img)"
  from assms have pos: "0 < ?w * ?h" and small: "4 * (?w * ?h) < 2 ^ 32"
    and sz: "unat (imgSizeFilled img) = 4 * (?w * ?h)"
    by (simp_all add: raw_frame_def)
  from pos have "0 < ?w" "0 < ?h" by simp_all
  then have "?w \<le> ?w * ?h" "?h \<le> ?w * ?h" by simp_all
  with small have w: "?w < 2 ^ 32" and h: "?h < 2 ^ 32" by linarith+
  show uw: "unat (ucast (imgWidth img) :: u32) = ?w"
    using w by (simp add: unsigned_ucast_eq take_bit_nat_eq_self)
  show uh: "unat (ucast (imgHeight img) :: u32) = ?h"
    using h by (simp add: unsigned_ucast_eq take_bit_nat_eq_self)
  show "unat ((ucast (imgWidth img) :: u32) * ucast (imgHeight img)) = ?w * ?h"
  proof -
    have "?w * ?h \<le> 4 * (?w * ?h)" by simp
    then have "?w * ?h < 2 ^ 32" using small by (rule le_less_trans)
    then show ?thesis by (simp add: unat_word_ariths uw uh)
  qed
  show "(ucast (ucast (imgWidth img) :: u32) :: u64) = imgWidth img"
    using w by (simp add: word_unat_eq_iff unsigned_ucast_eq unsigned_take_bit_eq take_bit_nat_eq_self)
  show "(ucast (ucast (imgHeight img) :: u32) :: u64) = imgHeight img"
    using h by (simp add: word_unat_eq_iff unsigned_ucast_eq unsigned_take_bit_eq take_bit_nat_eq_self)
  from pos sz have "imgSizeFilled img \<noteq> 0"
    by (metis unat_0 mult_is_0 less_numeral_extra(3) zero_neq_numeral)
  then show "unat (imgSizeFilled img - 1) = 4 * (?w * ?h) - 1"
    by (simp add: unat_minus_one sz)
qed

lemma split_frame_ok:
  assumes rf: "raw_frame h img"
  shows "split_frame h img =
     Some (Inr \<lparr>heap_after = h @ [replicate (unat (imgWidth img) * unat (imgHeight img)) None,
                    channel 0 (h ! imgData img), channel 1 (h ! imgData img),
                    channel 2 (h ! imgData img), channel 3 (h ! imgData img)],
                dummyBuffer = length h,
                outputImage0 = \<lparr>imgWidth = imgWidth img, imgHeight = imgHeight img,
                   imgSizeFilled = of_nat (unat (imgWidth img) * unat (imgHeight img)),
                   imgData = length h + 1\<rparr>,
                outputImage45 = \<lparr>imgWidth = imgWidth img, imgHeight = imgHeight img,
                   imgSizeFilled = of_nat (unat (imgWidth img) * unat (imgHeight img)),
                   imgData = length h + 2\<rparr>,
                outputImage90 = \<lparr>imgWidth = imgWidth img, imgHeight = imgHeight img,
                   imgSizeFilled = of_nat (unat (imgWidth img) * unat (imgHeight img)),
                   imgData = length h + 3\<rparr>,
                outputImage135 = \<lparr>imgWidth = imgWidth img, imgHeight = imgHeight img,
                   imgSizeFilled = of_nat (unat (imgWidth img) * unat (imgHeight img)),
                   imgData = length h + 4\<rparr>,
                loads = map (Pair (imgData img))
                          [0 ..< 4 * (unat (imgWidth img) * unat (imgHeight img))],
                stores = concat (map (group_stores (length h + 1) (length h + 2)
                                         (length h + 3) (length h + 4))
                                   [0 ..< unat (imgWidth img) * unat (imgHeight img)])\<rparr>)"
proof -
  let ?n = "unat (imgWidth img) * unat (imgHeight img)"
  let ?R = "replicate ?n (None :: cell)"
  let ?s = "imgData img"
  let ?S = "h ! ?s"
  let ?l = "length h"
  let ?h4 = "h @ [?R, ?R, ?R, ?R, ?R]"
  note dims = raw_frame_dims [OF rf]
  from rf have s: "?s < ?l" and lenS: "length ?S = 4 * ?n" and small: "4 * ?n < 2 ^ 32"
    and pos: "0 < ?n"
    by (simp_all add: raw_frame_def)
  have S4: "?h4 ! ?s = ?S"
    using s by (simp add: nth_append)
  have nth4: "?h4 ! (?l + 1) = ?R" "?h4 ! (?l + 2) = ?R" "?h4 ! (?l + 3) = ?R"
    "?h4 ! (?l + 4) = ?R"
    by (simp_all add: nth_append)
  let ?G = "group_stores (?l + 1) (?l + 2) (?l + 3) (?l + 4)"
  have loop: "split_loop ?h4 ?s (?l + 1) (?l + 2) (?l + 3) (?l + 4) (imgSizeFilled img - 1)
                [] [] 0 0
      = Some (Inr (?h4[?l + 1 := demux_from (?h4 ! ?s) 0 (?h4 ! (?l + 1)) 0 ?n,
                      ?l + 2 := demux_from (?h4 ! ?s) 1 (?h4 ! (?l + 2)) 0 ?n,
                      ?l + 3 := demux_from (?h4 ! ?s) 2 (?h4 ! (?l + 3)) 0 ?n,
                      ?l + 4 := demux_from (?h4 ! ?s) 3 (?h4 ! (?l + 4)) 0 ?n],
                    [] @ map (Pair ?s) [4 * 0 ..< 4 * (0 + ?n)],
                    [] @ concat (map ?G [0 ..< 0 + ?n])))"
    using s pos small
    by (intro split_loop_run) (simp_all add: nth_append lenS dims(6))
  have loop': "split_loop ?h4 ?s (?l + 1) (?l + 2) (?l + 3) (?l + 4) (imgSizeFilled img - 1)
                [] [] 0 0
      = Some (Inr (h @ [?R, channel 0 ?S, channel 1 ?S, channel 2 ?S, channel 3 ?S],
                    map (Pair ?s) [0 ..< 4 * ?n], concat (map ?G [0 ..< ?n])))"
    unfolding loop S4 nth4
    by (simp only: demux_from_channel [OF length_replicate lenS] upd_tail) simp
  have cr: "\<And>g. ?l < length g \<Longrightarrow> g ! ?l = ?R \<Longrightarrow>
      ImageFactory_Create g ?l ?n (imgWidth img) (imgHeight img) =
      Inr (g @ [?R], \<lparr>imgWidth = imgWidth img, imgHeight = imgHeight img,
                       imgSizeFilled = of_nat ?n, imgData = length g\<rparr>)"
    by (simp add: ImageFactory_Create_def)
  have suc: "?l + 1 = Suc ?l" "?l + 2 = Suc (Suc ?l)" "?l + 3 = Suc (Suc (Suc ?l))"
    "?l + 4 = Suc (Suc (Suc (Suc ?l)))"
    by simp_all
  have loop'': "split_loop ?h4 ?s (Suc ?l) (Suc (Suc ?l)) (Suc (Suc (Suc ?l)))
      (Suc (Suc (Suc (Suc ?l)))) (imgSizeFilled img - 1) [] [] 0 0
      = Some (Inr (h @ [?R, channel 0 ?S, channel 1 ?S, channel 2 ?S, channel 3 ?S],
                    map (Pair ?s) [0 ..< 4 * ?n], concat (map ?G [0 ..< ?n])))"
    using loop' by (simp only: suc)
  show ?thesis
    unfolding split_frame_def Let_def dims(3) dims(4) dims(5) new_array_def prod.case
    by (simp add: cr nth_append loop'')
qed

lemma set_group_stores:
  "set (concat (map (group_stores a0 a1 a2 a3) [0 ..< n])) = {a0, a1, a2, a3} \<times> {..< n}"
  by (auto simp: group_stores_def)

lemma distinct_group_stores:
  assumes "distinct [a0, a1, a2, a3]"
  shows "distinct (concat (map (group_stores a0 a1 a2 a3) [0 ..< n]))"
proof (induction n)
  case 0
  show ?case by simp
next
  case (Suc n)
  have "set (concat (map (group_stores a0 a1 a2 a3) [0 ..< n]))
          \<inter> set (group_stores a0 a1 a2 a3 n) = {}"
    unfolding set_group_stores by (auto simp: group_stores_def)
  moreover have "distinct (group_stores a0 a1 a2 a3 n)"
    using assms by (simp add: group_stores_def)
  ultimately show ?case
    using Suc by simp
qed

lemma raw_frame_example: "raw_frame example_heap example_image"
  by (simp add: raw_frame_def example_heap_def example_image_def)

lemma nth_channel:
  "k < length raw div 4 \<Longrightarrow> channel c raw ! k = raw ! (4 * k + c)"
  by (simp add: channel_def)

lemma length_channel: "length (channel c raw) = length raw div 4"
  by (simp add: channel_def)

lemma channel_no_None:
  assumes "None \<notin> set raw" and "c < 4"
  shows "None \<notin> set (channel c raw)"
proof
  assume "None \<in> set (channel c raw)"
  then obtain k where k: "k < length raw div 4" and "raw ! (4 * k + c) = None"
    by (auto simp: channel_def)
  moreover from k assms(2) have "4 * k + c < length raw" by arith
  ultimately show False
    using assms(1) by (metis nth_mem)
qed

text \<open>
  C1. For a RawFrame of \<open>w * h * 4\<close> bytes the splitter returns, and for every stride
  index \<open>k < w * h\<close> the channel frames hold \<open>ChannelFrame0[k] = RawFrame[4k]\<close>,
  \<open>ChannelFrame45[k] = RawFrame[4k + 1]\<close>, \<open>ChannelFrame90[k] = RawFrame[4k + 2]\<close> and
  \<open>ChannelFrame135[k] = RawFrame[4k + 3]\<close>.
\<close>

theorem split_frame_channels:
  assumes "raw_frame h img"
  shows "\<exists>r. split_frame h img = Some (Inr r)
     \<and> (\<forall>k < unat (imgWidth img) * unat (imgHeight img).
          heap_after r ! imgData (outputImage0 r) ! k = h ! imgData img ! (4 * k)
        \<and> heap_after r ! imgData (outputImage45 r) ! k = h ! imgData img ! (4 * k + 1)
        \<and> heap_after r ! imgData (outputImage90 r) ! k = h ! imgData img ! (4 * k + 2)
        \<and> heap_after r ! imgData (outputImage135 r) ! k = h ! imgData img ! (4 * k + 3))"
proof -
  from assms have len: "length (h ! imgData img) = 4 * (unat (imgWidth img) * unat (imgHeight img))"
    by (simp add: raw_frame_def)
  show ?thesis
    unfolding split_frame_ok [OF assms]
    by (simp add: nth_append nth_channel len)
qed

text \<open>The scenario of C1: the frame \<open>[10,20,30,40, 11,21,31,41]\<close> with \<open>w * h = 2\<close> gives
  the channel frames \<open>[10,11]\<close>, \<open>[20,21]\<close>, \<open>[30,31]\<close> and \<open>[40,41]\<close>.\<close>

theorem split_frame_channels_witness:
  "raw_frame example_heap example_image
   \<and> (\<exists>r. split_frame example_heap example_image = Some (Inr r)
        \<and> map ((!) (heap_after r ! imgData (outputImage0 r))) [0, 1] = [Some 10, Some 11]
        \<and> map ((!) (heap_after r ! imgData (outputImage45 r))) [0, 1] = [Some 20, Some 21]
        \<and> map ((!) (heap_after r ! imgData (outputImage90 r))) [0, 1] = [Some 30, Some 31]
        \<and> map ((!) (heap_after r ! imgData (outputImage135 r))) [0, 1] = [Some 40, Some 41])"
proof -
  obtain r where r: "split_frame example_heap example_image = Some (Inr r)"
    and ch: "\<forall>k < unat (imgWidth example_image) * unat (imgHeight example_image).
          heap_after r ! imgData (outputImage0 r) ! k = example_heap ! imgData example_image ! (4 * k)
        \<and> heap_after r ! imgData (outputImage45 r) ! k = example_heap ! imgData example_image ! (4 * k + 1)
        \<and> heap_after r ! imgData (outputImage90 r) ! k = example_heap ! imgData example_image ! (4 * k + 2)
        \<and> heap_after r ! imgData (outputImage135 r) ! k = example_heap ! imgData example_image ! (4 * k + 3)"
    using split_frame_channels [OF raw_frame_example] by blast
  have "(0::nat) < unat (imgWidth example_image) * unat (imgHeight example_image)"
    "(1::nat) < unat (imgWidth example_image) * unat (imgHeight example_image)"
    by (simp_all add: example_image_def)
  with ch show ?thesis
    using r raw_frame_example by (simp add: example_heap_def example_image_def)
qed




text \<open>
  C3 (as amended). The one \<^verbatim>\<open>dummyBuffer\<close> is passed to all four \<^verbatim>\<open>Create\<close> calls, but
  each of the four channel images handed to the recorders is backed by a buffer of its
  own, distinct from the others and from \<^verbatim>\<open>dummyBuffer\<close>, which the loop never writes;
  at append time index \<open>k\<close> of the buffer for offset \<open>c\<close> holds \<open>RawFrame[4k + c]\<close>.
\<close>

theorem split_frame_buffers_separate:
  assumes "raw_frame h img"
  shows "\<exists>r. split_frame h img = Some (Inr r)
     \<and> distinct [dummyBuffer r, imgData (outputImage0 r), imgData (outputImage45 r),
                 imgData (outputImage90 r), imgData (outputImage135 r)]
     \<and> heap_after r ! dummyBuffer r
          = replicate (unat (imgWidth img) * unat (imgHeight img)) None
     \<and> heap_after r ! imgData (outputImage0 r) = channel 0 (h ! imgData img)
     \<and> heap_after r ! imgData (outputImage45 r) = channel 1 (h ! imgData img)
     \<and> heap_after r ! imgData (outputImage90 r) = channel 2 (h ! imgData img)
     \<and> heap_after r ! imgData (outputImage135 r) = channel 3 (h ! imgData img)"
  unfolding split_frame_ok [OF assms] by (simp add: nth_append)

theorem split_frame_buffers_separate_witness:
  "raw_frame example_heap example_image
   \<and> (\<exists>r. split_frame example_heap example_image = Some (Inr r)
     \<and> distinct [dummyBuffer r, imgData (outputImage0 r), imgData (outputImage45 r),
                 imgData (outputImage90 r), imgData (outputImage135 r)]
     \<and> heap_after r ! dummyBuffer r = [None, None]
     \<and> heap_after r ! imgData (outputImage0 r) = [Some 10, Some 11]
     \<and> heap_after r ! imgData (outputImage45 r) = [Some 20, Some 21]
     \<and> heap_after r ! imgData (outputImage90 r) = [Some 30, Some 31]
     \<and> heap_after r ! imgData (outputImage135 r) = [Some 40, Some 41])"
proof -
  have "channel 0 (example_heap ! imgData example_image) = [Some 10, Some 11]"
    "channel 1 (example_heap ! imgData example_image) = [Some 20, Some 21]"
    "channel 2 (example_heap ! imgData example_image) = [Some 30, Some 31]"
    "channel 3 (example_heap ! imgData example_image) = [Some 40, Some 41]"
    by (simp_all add: channel_def example_heap_def example_image_def upt_rec)
  moreover have "unat (imgWidth example_image) * unat (imgHeight example_image) = 2"
    by (simp add: example_image_def)
  then have "replicate (unat (imgWidth example_image) * unat (imgHeight example_image)) (None :: cell)
       = [None, None]"
    by (simp add: numeral_2_eq_2)
  ultimately show ?thesis
    using split_frame_buffers_separate [OF raw_frame_example] raw_frame_example by simp
qed

text \<open>
  C3 as stated fails: on the scenario's frame the four buffers handed to the recorders
  are not byte-identical, and index \<open>k\<close> of the first three does not hold
  \<open>RawFrame[4k + 3]\<close>.
\<close>

theorem split_frame_shared_buffer_counterexample:
  "channel_frames (split_frame example_heap example_image)
     = [[Some 10, Some 11], [Some 20, Some 21], [Some 30, Some 31], [Some 40, Some 41]]
   \<and> channel_frames (split_frame example_heap example_image) ! 0
       \<noteq> channel_frames (split_frame example_heap example_image) ! 3"
  by code_simp

text \<open>
  C6. For a RawFrame of \<open>w * h * 4\<close> bytes the splitter produces four channel frames in
  four different buffers, each \<open>w\<close> wide, \<open>h\<close> high and exactly \<open>w * h\<close> bytes long.
  The loop stores to every index \<open>k < w * h\<close> of each of the four buffers, once, and
  nowhere else; after it index \<open>k\<close> of the buffer for offset \<open>c\<close> holds the sample
  \<open>RawFrame[4k + c]\<close>, and no cell of the four is left as it was allocated.
\<close>

theorem split_frame_sizes:
  assumes "raw_frame h img"
  shows "\<exists>r. split_frame h img = Some (Inr r)
     \<and> distinct (map imgData [outputImage0 r, outputImage45 r, outputImage90 r, outputImage135 r])
     \<and> distinct (stores r)
     \<and> set (stores r)
         = set (map imgData [outputImage0 r, outputImage45 r, outputImage90 r, outputImage135 r])
           \<times> {..< unat (imgWidth img) * unat (imgHeight img)}
     \<and> (\<forall>(out, c) \<in> set [(outputImage0 r, 0), (outputImage45 r, 1), (outputImage90 r, 2),
                           (outputImage135 r, 3)].
          imgWidth out = imgWidth img \<and> imgHeight out = imgHeight img
          \<and> length (heap_after r ! imgData out) = unat (imgWidth img) * unat (imgHeight img)
          \<and> None \<notin> set (heap_after r ! imgData out)
          \<and> (\<forall>k < unat (imgWidth img) * unat (imgHeight img).
                 (imgData out, k) \<in> set (stores r)
               \<and> heap_after r ! imgData out ! k = h ! imgData img ! (4 * k + c)))"
proof -
  let ?n = "unat (imgWidth img) * unat (imgHeight img)"
  let ?l = "length h"
  from assms have len: "length (h ! imgData img) = 4 * ?n"
    and nn: "None \<notin> set (h ! imgData img)"
    by (simp_all add: raw_frame_def)
  have none: "None \<notin> set (channel 0 (h ! imgData img))" "None \<notin> set (channel 1 (h ! imgData img))"
    "None \<notin> set (channel 2 (h ! imgData img))" "None \<notin> set (channel 3 (h ! imgData img))"
    using nn by (simp_all add: channel_no_None)
  have d: "distinct (concat (map (group_stores (?l + 1) (?l + 2) (?l + 3) (?l + 4)) [0 ..< ?n]))"
    by (rule distinct_group_stores) simp
  have st: "set (concat (map (group_stores (?l + 1) (?l + 2) (?l + 3) (?l + 4)) [0 ..< ?n]))
              = {?l + 1, ?l + 2, ?l + 3, ?l + 4} \<times> {..< ?n}"
    by (rule set_group_stores)
  show ?thesis
    unfolding split_frame_ok [OF assms]
    using none d st by (simp add: nth_append length_channel nth_channel len)
qed

text \<open>The scenario's frame: four buffers of two cells, eight stores, the first to index
  0 of the buffer of angle 0 and the last to index 1 of the buffer of angle 135.\<close>

theorem split_frame_sizes_witness:
  "raw_frame example_heap example_image
   \<and> (\<exists>r. split_frame example_heap example_image = Some (Inr r)
     \<and> distinct (map imgData [outputImage0 r, outputImage45 r, outputImage90 r, outputImage135 r])
     \<and> distinct (stores r)
     \<and> (imgData (outputImage0 r), 0) \<in> set (stores r)
     \<and> (imgData (outputImage135 r), 1) \<in> set (stores r)
     \<and> imgWidth (outputImage0 r) = 2 \<and> imgHeight (outputImage0 r) = 1
     \<and> length (heap_after r ! imgData (outputImage0 r)) = 2
     \<and> length (heap_after r ! imgData (outputImage135 r)) = 2
     \<and> heap_after r ! imgData (outputImage0 r) ! 0 = Some 10
     \<and> heap_after r ! imgData (outputImage45 r) ! 1 = Some 21
     \<and> heap_after r ! imgData (outputImage90 r) ! 0 = Some 30
     \<and> heap_after r ! imgData (outputImage135 r) ! 1 = Some 41)"
proof -
  have n: "unat (imgWidth example_image) * unat (imgHeight example_image) = 2"
    "imgWidth example_image = 2" "imgHeight example_image = 1"
    by (simp_all add: example_image_def)
  have src: "example_heap ! imgData example_image ! (4 * 0 + 0) = Some 10"
    "example_heap ! imgData example_image ! (4 * 1 + 1) = Some 21"
    "example_heap ! imgData example_image ! (4 * 0 + 2) = Some 30"
    "example_heap ! imgData example_image ! (4 * 1 + 3) = Some 41"
    by (simp_all add: example_heap_def example_image_def)
  have k: "(0::nat) < 2" "(1::nat) < 2"
    by simp_all
  show ?thesis
    using split_frame_sizes [OF raw_frame_example] raw_frame_example k
    unfolding n by (fastforce simp: src [symmetric])
qed

lemma raw_frame_after:
  assumes "raw_frame h img" and "split_frame h img = Some (Inr r)"
  shows "raw_frame (heap_after r) img" and "heap_after r ! imgData img = h ! imgData img"
proof -
  from assms(1) have s: "imgData img < length h" by (simp add: raw_frame_def)
  from assms(2) have hr: "heap_after r = h @ [replicate (unat (imgWidth img) * unat (imgHeight img)) None,
                    channel 0 (h ! imgData img), channel 1 (h ! imgData img),
                    channel 2 (h ! imgData img), channel 3 (h ! imgData img)]"
    unfolding split_frame_ok [OF assms(1)] by auto
  show "heap_after r ! imgData img = h ! imgData img"
    using s by (simp add: hr nth_append)
  then show "raw_frame (heap_after r) img"
    using assms(1) by (simp add: raw_frame_def hr)
qed

text \<open>
  C9. Splitting depends on the bytes of the RawFrame only: a second call on the same
  RawFrame, in the heap the first call left, returns channel frames byte-identical to
  those of the first call (which it does not disturb), and neither call changes the
  RawFrame.
\<close>

theorem split_frame_twice:
  assumes "raw_frame h img"
  shows "\<exists>r1 r2. split_frame h img = Some (Inr r1)
     \<and> split_frame (heap_after r1) img = Some (Inr r2)
     \<and> channel_frames (Some (Inr r2)) = channel_frames (Some (Inr r1))
     \<and> heap_after r2 ! imgData (outputImage0 r1) = heap_after r1 ! imgData (outputImage0 r1)
     \<and> heap_after r2 ! imgData (outputImage45 r1) = heap_after r1 ! imgData (outputImage45 r1)
     \<and> heap_after r2 ! imgData (outputImage90 r1) = heap_after r1 ! imgData (outputImage90 r1)
     \<and> heap_after r2 ! imgData (outputImage135 r1) = heap_after r1 ! imgData (outputImage135 r1)
     \<and> heap_after r1 ! imgData img = h ! imgData img
     \<and> heap_after r2 ! imgData img = h ! imgData img"
proof -
  obtain r1 where r1: "split_frame h img = Some (Inr r1)"
    using split_frame_ok [OF assms] by blast
  note after = raw_frame_after [OF assms r1]
  obtain r2 where r2: "split_frame (heap_after r1) img = Some (Inr r2)"
    using split_frame_ok [OF after(1)] by blast
  note after2 = raw_frame_after [OF after(1) r2]
  from assms have s: "imgData img < length h" by (simp add: raw_frame_def)
  have e1: "r1 = projr (the (split_frame h img))" using r1 by simp
  have e2: "r2 = projr (the (split_frame (heap_after r1) img))" using r2 by simp
  have f1: "channel_frames (Some (Inr r1)) =
     [channel 0 (h ! imgData img), channel 1 (h ! imgData img),
      channel 2 (h ! imgData img), channel 3 (h ! imgData img)]"
    unfolding e1 split_frame_ok [OF assms] by (simp add: channel_frames_def nth_append)
  have f2: "channel_frames (Some (Inr r2)) =
     [channel 0 (heap_after r1 ! imgData img), channel 1 (heap_after r1 ! imgData img),
      channel 2 (heap_after r1 ! imgData img), channel 3 (heap_after r1 ! imgData img)]"
    unfolding e2 split_frame_ok [OF after(1)] by (simp add: channel_frames_def nth_append)
  have h1: "heap_after r1 = h @ [replicate (unat (imgWidth img) * unat (imgHeight img)) None,
                    channel 0 (h ! imgData img), channel 1 (h ! imgData img),
                    channel 2 (h ! imgData img), channel 3 (h ! imgData img)]"
    and o1: "imgData (outputImage0 r1) = length h + 1" "imgData (outputImage45 r1) = length h + 2"
      "imgData (outputImage90 r1) = length h + 3" "imgData (outputImage135 r1) = length h + 4"
    unfolding e1 split_frame_ok [OF assms] by simp_all
  have h2: "heap_after r2 = heap_after r1 @ [replicate (unat (imgWidth img) * unat (imgHeight img)) None,
                    channel 0 (heap_after r1 ! imgData img), channel 1 (heap_after r1 ! imgData img),
                    channel 2 (heap_after r1 ! imgData img), channel 3 (heap_after r1 ! imgData img)]"
    unfolding e2 split_frame_ok [OF after(1)] by simp
  have keep: "\<And>a. a < length (heap_after r1) \<Longrightarrow> heap_after r2 ! a = heap_after r1 ! a"
    by (subst h2) (simp add: nth_append)
  have "heap_after r2 ! imgData (outputImage0 r1) = heap_after r1 ! imgData (outputImage0 r1)"
    "heap_after r2 ! imgData (outputImage45 r1) = heap_after r1 ! imgData (outputImage45 r1)"
    "heap_after r2 ! imgData (outputImage90 r1) = heap_after r1 ! imgData (outputImage90 r1)"
    "heap_after r2 ! imgData (outputImage135 r1) = heap_after r1 ! imgData (outputImage135 r1)"
    by (rule keep, simp add: h1 o1)+
  moreover have "channel_frames (Some (Inr r2)) = channel_frames (Some (Inr r1))"
    by (simp add: f1 f2 after(2))
  ultimately show ?thesis
    using r1 r2 after(2) after2(2) by auto
qed

theorem split_frame_twice_witness:
  "raw_frame example_heap example_image
   \<and> (\<exists>r1 r2. split_frame example_heap example_image = Some (Inr r1)
     \<and> split_frame (heap_after r1) example_image = Some (Inr r2)
     \<and> channel_frames (Some (Inr r2)) = channel_frames (Some (Inr r1))
     \<and> heap_after r2 ! imgData (outputImage0 r1) = heap_after r1 ! imgData (outputImage0 r1)
     \<and> heap_after r2 ! imgData (outputImage45 r1) = heap_after r1 ! imgData (outputImage45 r1)
     \<and> heap_after r2 ! imgData (outputImage90 r1) = heap_after r1 ! imgData (outputImage90 r1)
     \<and> heap_after r2 ! imgData (outputImage135 r1) = heap_after r1 ! imgData (outputImage135 r1)
     \<and> heap_after r1 ! imgData example_image = map Some [10, 20, 30, 40, 11, 21, 31, 41]
     \<and> heap_after r2 ! imgData example_image = map Some [10, 20, 30, 40, 11, 21, 31, 41])"
proof -
  have "example_heap ! imgData example_image = map Some [10, 20, 30, 40, 11, 21, 31, 41]"
    by (simp add: example_heap_def example_image_def)
  then show ?thesis
    using split_frame_twice [OF raw_frame_example] raw_frame_example by simp
qed

section \<open>The recorder on a list of RawFrames\<close>

lemma raw_frame_append:
  assumes "raw_frame h img"
  shows "raw_frame (h @ ext) img" and "(h @ ext) ! imgData img = h ! imgData img"
  using assms by (simp_all add: raw_frame_def nth_append)

lemma split_frame_heap:
  assumes "raw_frame h img"
  shows "\<exists>r. split_frame h img = Some (Inr r)
     \<and> heap_after r = h @ [heap_after r ! dummyBuffer r, channel 0 (h ! imgData img),
                           channel 1 (h ! imgData img), channel 2 (h ! imgData img),
                           channel 3 (h ! imgData img)]
     \<and> heap_after r ! imgData (outputImage0 r) = channel 0 (h ! imgData img)
     \<and> heap_after r ! imgData (outputImage45 r) = channel 1 (h ! imgData img)
     \<and> heap_after r ! imgData (outputImage90 r) = channel 2 (h ! imgData img)
     \<and> heap_after r ! imgData (outputImage135 r) = channel 3 (h ! imgData img)"
  unfolding split_frame_ok [OF assms] by (simp add: nth_append)

lemma append_images_ok:
  assumes "\<forall>img \<in> set images. raw_frame h img"
  shows "\<exists>h'. append_images cnv h rs images =
     Some (Inr (h',
       \<lparr>videoRecorder_0 = (videoRecorder_0 rs)\<lparr>vr_frames := vr_frames (videoRecorder_0 rs)
            @ map (\<lambda>img. cnv (channel 0 (h ! imgData img))) images\<rparr>,
        videoRecorder_45 = (videoRecorder_45 rs)\<lparr>vr_frames := vr_frames (videoRecorder_45 rs)
            @ map (\<lambda>img. cnv (channel 1 (h ! imgData img))) images\<rparr>,
        videoRecorder_90 = (videoRecorder_90 rs)\<lparr>vr_frames := vr_frames (videoRecorder_90 rs)
            @ map (\<lambda>img. cnv (channel 2 (h ! imgData img))) images\<rparr>,
        videoRecorder_135 = (videoRecorder_135 rs)\<lparr>vr_frames := vr_frames (videoRecorder_135 rs)
            @ map (\<lambda>img. cnv (channel 3 (h ! imgData img))) images\<rparr>\<rparr>))"
  using assms
proof (induction images arbitrary: h rs)
  case Nil
  then show ?case by simp
next
  case (Cons img images)
  from Cons.prems have rf: "raw_frame h img" by simp
  from split_frame_heap [OF rf] obtain r where r: "split_frame h img = Some (Inr r)"
    and hr: "heap_after r = h @ [heap_after r ! dummyBuffer r, channel 0 (h ! imgData img),
                           channel 1 (h ! imgData img), channel 2 (h ! imgData img),
                           channel 3 (h ! imgData img)]"
    and ch: "heap_after r ! imgData (outputImage0 r) = channel 0 (h ! imgData img)"
      "heap_after r ! imgData (outputImage45 r) = channel 1 (h ! imgData img)"
      "heap_after r ! imgData (outputImage90 r) = channel 2 (h ! imgData img)"
      "heap_after r ! imgData (outputImage135 r) = channel 3 (h ! imgData img)"
    by blast
  have rest: "\<forall>i \<in> set images. raw_frame (heap_after r) i"
    and same: "\<And>i. i \<in> set images \<Longrightarrow> heap_after r ! imgData i = h ! imgData i"
    using Cons.prems by (subst hr, simp add: raw_frame_append)+
  have maps: "\<And>c. map (\<lambda>i. cnv (channel c (heap_after r ! imgData i))) images
                 = map (\<lambda>i. cnv (channel c (h ! imgData i))) images"
    using same by simp
  show ?case
    using Cons.IH [OF rest, of "\<lparr>videoRecorder_0 =
               AppendImage (videoRecorder_0 rs) (cnv (heap_after r ! imgData (outputImage0 r))),
             videoRecorder_45 =
               AppendImage (videoRecorder_45 rs) (cnv (heap_after r ! imgData (outputImage45 r))),
             videoRecorder_90 =
               AppendImage (videoRecorder_90 rs) (cnv (heap_after r ! imgData (outputImage90 r))),
             videoRecorder_135 =
               AppendImage (videoRecorder_135 rs) (cnv (heap_after r ! imgData (outputImage135 r)))\<rparr>"]
    by (simp add: r ch maps AppendImage_def)
qed


text \<open>
  C4. For \<open>N \<ge> 1\<close> captured RawFrames the recorder returns with each of the four streams
  closed and holding exactly \<open>N\<close> frames, and for every \<open>i < N\<close> the frame at position \<open>i\<close>
  of a stream is (the conversion of) that stream's ChannelFrame of RawFrame \<open>i\<close>.
\<close>

theorem RecordVideo_appends_in_order:
  assumes "images \<noteq> []" and "\<forall>img \<in> set images. raw_frame h img"
  shows "\<exists>h' rs. RecordVideo cnv h images fps = Some (Inr (h', rs))
     \<and> (\<forall>v \<in> set [videoRecorder_0 rs, videoRecorder_45 rs, videoRecorder_90 rs,
                    videoRecorder_135 rs].
           length (vr_frames v) = length images \<and> vr_state v = Closed)
     \<and> map vr_fileName [videoRecorder_0 rs, videoRecorder_45 rs, videoRecorder_90 rs,
                         videoRecorder_135 rs]
         = [''video_0.mp4'', ''video_45.mp4'', ''video_90.mp4'', ''video_135.mp4'']
     \<and> (\<forall>i < length images.
           vr_frames (videoRecorder_0 rs) ! i = cnv (channel 0 (h ! imgData (images ! i)))
         \<and> vr_frames (videoRecorder_45 rs) ! i = cnv (channel 1 (h ! imgData (images ! i)))
         \<and> vr_frames (videoRecorder_90 rs) ! i = cnv (channel 2 (h ! imgData (images ! i)))
         \<and> vr_frames (videoRecorder_135 rs) ! i = cnv (channel 3 (h ! imgData (images ! i))))"
proof -
  from assms(1) obtain img0 rest where images: "images = img0 # rest"
    by (cases images) auto
  let ?rs = "\<lparr>videoRecorder_0 = vr_Open (VideoRecorder_new (imgWidth img0) (imgHeight img0) fps ''video_0.mp4''),
      videoRecorder_45 = vr_Open (VideoRecorder_new (imgWidth img0) (imgHeight img0) fps ''video_45.mp4''),
      videoRecorder_90 = vr_Open (VideoRecorder_new (imgWidth img0) (imgHeight img0) fps ''video_90.mp4''),
      videoRecorder_135 = vr_Open (VideoRecorder_new (imgWidth img0) (imgHeight img0) fps ''video_135.mp4'')\<rparr>
      :: 'a recorders"
  from append_images_ok [OF assms(2), of cnv ?rs]
  obtain h' where app: "append_images cnv h ?rs images =
     Some (Inr (h',
       \<lparr>videoRecorder_0 = (videoRecorder_0 ?rs)\<lparr>vr_frames := vr_frames (videoRecorder_0 ?rs)
            @ map (\<lambda>img. cnv (channel 0 (h ! imgData img))) images\<rparr>,
        videoRecorder_45 = (videoRecorder_45 ?rs)\<lparr>vr_frames := vr_frames (videoRecorder_45 ?rs)
            @ map (\<lambda>img. cnv (channel 1 (h ! imgData img))) images\<rparr>,
        videoRecorder_90 = (videoRecorder_90 ?rs)\<lparr>vr_frames := vr_frames (videoRecorder_90 ?rs)
            @ map (\<lambda>img. cnv (channel 2 (h ! imgData img))) images\<rparr>,
        videoRecorder_135 = (videoRecorder_135 ?rs)\<lparr>vr_frames := vr_frames (videoRecorder_135 ?rs)
            @ map (\<lambda>img. cnv (channel 3 (h ! imgData img))) images\<rparr>\<rparr>))"
    by blast
  have "RecordVideo cnv h images fps = (case append_images cnv h ?rs images of
                None \<Rightarrow> None
              | Some (Inl e) \<Rightarrow> Some (Inl e)
              | Some (Inr (h', rs')) \<Rightarrow>
                  Some (Inr (h', \<lparr>videoRecorder_0 = vr_Close (videoRecorder_0 rs'),
                                  videoRecorder_45 = vr_Close (videoRecorder_45 rs'),
                                  videoRecorder_90 = vr_Close (videoRecorder_90 rs'),
                                  videoRecorder_135 = vr_Close (videoRecorder_135 rs')\<rparr>)))"
    by (simp add: RecordVideo_def images Let_def)
  then show ?thesis
    unfolding app
    by (simp add: vr_Close_def vr_Open_def VideoRecorder_new_def)
qed

lemma raw_frame_two_frames: "\<forall>img \<in> set two_frames. raw_frame two_frames_heap img"
  by (simp add: two_frames_def two_frames_heap_def raw_frame_def)

theorem RecordVideo_appends_in_order_witness:
  "two_frames \<noteq> [] \<and> raw_frame two_frames_heap (two_frames ! 0)
   \<and> raw_frame two_frames_heap (two_frames ! 1)
   \<and> (\<exists>h' rs. RecordVideo id two_frames_heap two_frames (Finite 10) = Some (Inr (h', rs))
        \<and> map vr_state [videoRecorder_0 rs, videoRecorder_45 rs, videoRecorder_90 rs,
                         videoRecorder_135 rs] = [Closed, Closed, Closed, Closed]
        \<and> map (length \<circ> vr_frames) [videoRecorder_0 rs, videoRecorder_45 rs,
                         videoRecorder_90 rs, videoRecorder_135 rs] = [2, 2, 2, 2]
        \<and> map ((!) (vr_frames (videoRecorder_0 rs))) [0, 1]
             = [[Some 10, Some 11], [Some 50, Some 51]]
        \<and> map ((!) (vr_frames (videoRecorder_45 rs))) [0, 1]
             = [[Some 20, Some 21], [Some 60, Some 61]]
        \<and> map ((!) (vr_frames (videoRecorder_90 rs))) [0, 1]
             = [[Some 30, Some 31], [Some 70, Some 71]]
        \<and> map ((!) (vr_frames (videoRecorder_135 rs))) [0, 1]
             = [[Some 40, Some 41], [Some 80, Some 81]])"
proof -
  have ne: "two_frames \<noteq> []" by (simp add: two_frames_def)
  have len: "length two_frames = 2" by (simp add: two_frames_def)
  have ch: "channel 0 (two_frames_heap ! imgData (two_frames ! 0)) = [Some 10, Some 11]"
    "channel 1 (two_frames_heap ! imgData (two_frames ! 0)) = [Some 20, Some 21]"
    "channel 2 (two_frames_heap ! imgData (two_frames ! 0)) = [Some 30, Some 31]"
    "channel 3 (two_frames_heap ! imgData (two_frames ! 0)) = [Some 40, Some 41]"
    "channel 0 (two_frames_heap ! imgData (two_frames ! 1)) = [Some 50, Some 51]"
    "channel 1 (two_frames_heap ! imgData (two_frames ! 1)) = [Some 60, Some 61]"
    "channel 2 (two_frames_heap ! imgData (two_frames ! 1)) = [Some 70, Some 71]"
    "channel 3 (two_frames_heap ! imgData (two_frames ! 1)) = [Some 80, Some 81]"
    by (simp_all add: channel_def two_frames_def two_frames_heap_def upt_rec)
  have rf: "raw_frame two_frames_heap (two_frames ! 0)" "raw_frame two_frames_heap (two_frames ! 1)"
    using raw_frame_two_frames by (simp_all add: two_frames_def)
  from RecordVideo_appends_in_order [OF ne raw_frame_two_frames, of id "Finite 10"]
  obtain h' rs where rv: "RecordVideo id two_frames_heap two_frames (Finite 10) = Some (Inr (h', rs))"
    and st: "\<forall>v \<in> set [videoRecorder_0 rs, videoRecorder_45 rs, videoRecorder_90 rs,
                    videoRecorder_135 rs].
           length (vr_frames v) = length two_frames \<and> vr_state v = Closed"
    and fr: "\<forall>i < length two_frames.
           vr_frames (videoRecorder_0 rs) ! i = id (channel 0 (two_frames_heap ! imgData (two_frames ! i)))
         \<and> vr_frames (videoRecorder_45 rs) ! i = id (channel 1 (two_frames_heap ! imgData (two_frames ! i)))
         \<and> vr_frames (videoRecorder_90 rs) ! i = id (channel 2 (two_frames_heap ! imgData (two_frames ! i)))
         \<and> vr_frames (videoRecorder_135 rs) ! i = id (channel 3 (two_frames_heap ! imgData (two_frames ! i)))"
    by blast
  from fr have "vr_frames (videoRecorder_0 rs) ! 0 = [Some 10, Some 11]"
    "vr_frames (videoRecorder_0 rs) ! 1 = [Some 50, Some 51]"
    "vr_frames (videoRecorder_45 rs) ! 0 = [Some 20, Some 21]"
    "vr_frames (videoRecorder_45 rs) ! 1 = [Some 60, Some 61]"
    "vr_frames (videoRecorder_90 rs) ! 0 = [Some 30, Some 31]"
    "vr_frames (videoRecorder_90 rs) ! 1 = [Some 70, Some 71]"
    "vr_frames (videoRecorder_135 rs) ! 0 = [Some 40, Some 41]"
    "vr_frames (videoRecorder_135 rs) ! 1 = [Some 80, Some 81]"
    unfolding len using ch by (simp_all del: One_nat_def)
  with st rv ne rf show ?thesis
    by (simp add: len)
qed

section \<open>The session\<close>

lemma int64_div_exact:
  assumes "0 \<le> sint a" and "0 <s b" and "sint a mod sint b = 0"
  shows "\<exists>q. int64_div a b = Inr q \<and> q * b = a"
proof -
  from assms(2) have b: "0 < sint b" by (simp add: word_sless_alt)
  then have nz: "b \<noteq> 0" "b \<noteq> - 1" by auto
  have "sgn (sint a) * sgn (sint b) * (\<bar>sint a\<bar> div \<bar>sint b\<bar>) = sint a div sint b"
    using assms(1) b by (cases "sint a = 0") (simp_all add: sgn_if)
  then have q: "int64_div a b = Inr (word_of_int (sint a div sint b))"
    using nz by (simp add: int64_div_def)
  have "word_of_int (sint a div sint b) * b = word_of_int (sint a div sint b) * word_of_int (sint b)"
    by simp
  also have "\<dots> = word_of_int (sint a div sint b * sint b)"
    by (simp only: wi_hom_mult)
  also have "sint a div sint b * sint b = sint a"
    using assms(3) by (simp add: mod_0_imp_dvd)
  finally show ?thesis
    using q by simp
qed

lemma SetIntValue_restore:
  assumes "int_node_ok n"
  shows "SetIntValue (n\<lparr>ival := v\<rparr>) (ival n) = Inr (ival n, n)"
proof -
  from assms have m0: "0 \<le> sint (imin n)" and ma: "sint (imin n) \<le> sint (ival n)"
    and le: "imin n \<le>s ival n" "ival n \<le>s imax n" and inc: "0 <s iinc n"
    and dv: "(sint (ival n) - sint (imin n)) mod sint (iinc n) = 0"
    by (simp_all add: int_node_ok_def word_sle_eq)
  have "sint (ival n) < 2 ^ 63"
    using sint_lt [of "ival n"] by simp
  with m0 ma have d: "sint (ival n - imin n) = sint (ival n) - sint (imin n)"
    by (simp add: sint_word_ariths signed_take_bit_int_eq_self)
  from int64_div_exact [of "ival n - imin n" "iinc n"] obtain q
    where q: "int64_div (ival n - imin n) (iinc n) = Inr q" and qe: "q * iinc n = ival n - imin n"
    using d ma inc dv by auto
  have n1: "\<not> ival n <s imin n" and n2: "\<not> imax n <s ival n"
    using le by (simp_all add: word_sle_eq word_sless_alt)
  show ?thesis
    by (simp add: SetIntValue_def q qe Let_def n1 n2)
qed

lemma SetFloatValue_restore:
  assumes "float_node_ok f"
  shows "SetFloatValue (f\<lparr>fval := r\<rparr>) (fval f) = (fval f, f)"
proof -
  from assms have a: "dle (fmin f) (fval f)" and b: "dle (fval f) (fmax f)"
    by (simp_all add: float_node_ok_def)
  have "\<not> dless (fval f) (fmin f)"
    using a by (cases "fmin f"; cases "fval f") auto
  moreover have "\<not> dless (fmax f) (fval f)"
    using b by (cases "fmax f"; cases "fval f") auto
  ultimately show ?thesis
    by (simp add: SetFloatValue_def)
qed

lemma SetIntValue_total:
  assumes "0 <s iinc n"
  shows "\<exists>v. SetIntValue n x = Inr (v, n\<lparr>ival := v\<rparr>)"
proof -
  from assms have "iinc n \<noteq> 0" "iinc n \<noteq> - 1"
    by (auto simp: word_sless_alt)
  then obtain q where q: "int64_div (x - imin n) (iinc n) = Inr q"
    by (simp add: int64_div_def)
  show ?thesis
    by (simp add: SetIntValue_def q Let_def)
qed

lemma RecordVideo_returns:
  assumes "images \<noteq> []" and "\<forall>img \<in> set images. raw_frame h img"
  shows "\<exists>h' rs. RecordVideo cnv h images fps = Some (Inr (h', rs))"
proof -
  from assms(1) obtain img0 rest where images: "images = img0 # rest"
    by (cases images) auto
  let ?rs = "\<lparr>videoRecorder_0 = vr_Open (VideoRecorder_new (imgWidth img0) (imgHeight img0) fps ''video_0.mp4''),
      videoRecorder_45 = vr_Open (VideoRecorder_new (imgWidth img0) (imgHeight img0) fps ''video_45.mp4''),
      videoRecorder_90 = vr_Open (VideoRecorder_new (imgWidth img0) (imgHeight img0) fps ''video_90.mp4''),
      videoRecorder_135 = vr_Open (VideoRecorder_new (imgWidth img0) (imgHeight img0) fps ''video_135.mp4'')\<rparr>
      :: 'a recorders"
  from append_images_ok [OF assms(2), of cnv ?rs]
  obtain h' rs' where app: "append_images cnv h ?rs images = Some (Inr (h', rs'))"
    by blast
  have "RecordVideo cnv h images fps = (case append_images cnv h ?rs images of
                None \<Rightarrow> None
              | Some (Inl e) \<Rightarrow> Some (Inl e)
              | Some (Inr (h', rs')) \<Rightarrow>
                  Some (Inr (h', \<lparr>videoRecorder_0 = vr_Close (videoRecorder_0 rs'),
                                  videoRecorder_45 = vr_Close (videoRecorder_45 rs'),
                                  videoRecorder_90 = vr_Close (videoRecorder_90 rs'),
                                  videoRecorder_135 = vr_Close (videoRecorder_135 rs')\<rparr>)))"
    by (simp add: RecordVideo_def images Let_def)
  then show ?thesis
    unfolding app by simp
qed

lemma captured_frame_Copy:
  assumes "captured_frame fr"
  shows "raw_frame (fst (ImageFactory_Copy h fr)) (snd (ImageFactory_Copy h fr))"
  using assms by (simp add: captured_frame_def ImageFactory_Copy_def raw_frame_def)

lemma Copy_keeps_frames:
  assumes "raw_frame h img"
  shows "raw_frame (fst (ImageFactory_Copy h fr)) img"
  using assms by (simp add: ImageFactory_Copy_def raw_frame_append)

lemma capture_ok:
  assumes "\<forall>k. i \<le> k \<and> k < n \<longrightarrow> (\<exists>fr. gi k = Inr fr \<and> captured_frame fr)"
    and "\<forall>img \<in> set images. raw_frame h img"
  shows "\<exists>h' images'. capture gi n i h images = Inr (h', images')
           \<and> (\<forall>img \<in> set images'. raw_frame h' img)
           \<and> length images' = length images + (n - i)"
  using assms
proof (induction gi n i h images rule: capture.induct)
  case (1 gi n i h images)
  show ?case
  proof (cases "i < n")
    case False
    then show ?thesis
      using "1.prems"(2) by (subst capture.simps) simp
  next
    case True
    with "1.prems"(1) obtain fr where fr: "gi i = Inr fr" and cf: "captured_frame fr"
      by auto
    have frames: "\<forall>img \<in> set (images @ [snd (ImageFactory_Copy h fr)]).
                    raw_frame (fst (ImageFactory_Copy h fr)) img"
      using "1.prems"(2) captured_frame_Copy [OF cf] by (auto simp: Copy_keeps_frames)
    have later: "\<forall>k. Suc i \<le> k \<and> k < n \<longrightarrow> (\<exists>fr. gi k = Inr fr \<and> captured_frame fr)"
      using "1.prems"(1) by auto
    from "1.IH" [OF True fr later frames] True
    show ?thesis
      by (subst capture.simps) (auto simp: fr)
  qed
qed

lemma capture_fails:
  assumes "i \<le> k" and "k < n" and "gi k = Inl e"
  shows "\<exists>e'. capture gi n i h images = Inl e'"
  using assms
proof (induction gi n i h images rule: capture.induct)
  case (1 gi n i h images)
  from "1.prems" have lt: "i < n" by simp
  show ?case
  proof (cases "gi i")
    case (Inl e0)
    then show ?thesis
      using lt by (subst capture.simps) simp
  next
    case (Inr fr)
    with "1.prems" have "i \<noteq> k" by auto
    with "1.prems"(1) have "Suc i \<le> k" by simp
    from "1.IH" [OF lt Inr this "1.prems"(2,3)] show ?thesis
      using lt by (subst capture.simps) (simp add: Inr)
  qed
qed

lemma configure_ok:
  assumes "0 <s iinc (Width dev)" and "0 <s iinc (Height dev)"
  shows "\<exists>w ht r. configure dev s =
     Inr (s\<lparr>s_width := w, s_height := ht, s_fps := r\<rparr>,
          dev\<lparr>AcquisitionMode := ''Continuous'',
              PixelFormat := ''PolarizedAngles_0d_45d_90d_135d_Mono8'',
              Width := (Width dev)\<lparr>ival := w\<rparr>, Height := (Height dev)\<lparr>ival := ht\<rparr>,
              AcquisitionFrameRateEnable := True,
              AcquisitionFrameRate := (AcquisitionFrameRate dev)\<lparr>fval := r\<rparr>,
              StreamAutoNegotiatePacketSize := True, StreamPacketResendEnable := True,
              streaming := True\<rparr>)"
proof -
  from SetIntValue_total [OF assms(1)] obtain w
    where w: "SetIntValue (Width dev) (s_width s) = Inr (w, (Width dev)\<lparr>ival := w\<rparr>)"
    by blast
  from SetIntValue_total [OF assms(2)] obtain ht
    where ht: "SetIntValue (Height dev) (s_height s) = Inr (ht, (Height dev)\<lparr>ival := ht\<rparr>)"
    by blast
  define r where "r = fst (SetFloatValue (AcquisitionFrameRate dev) (s_fps s))"
  have f: "SetFloatValue (AcquisitionFrameRate dev) (s_fps s) =
      (r, (AcquisitionFrameRate dev)\<lparr>fval := r\<rparr>)"
    by (simp add: SetFloatValue_def Let_def r_def)
  have "configure dev s =
     Inr (s\<lparr>s_width := w, s_height := ht, s_fps := r\<rparr>,
          dev\<lparr>AcquisitionMode := ''Continuous'',
              PixelFormat := ''PolarizedAngles_0d_45d_90d_135d_Mono8'',
              Width := (Width dev)\<lparr>ival := w\<rparr>, Height := (Height dev)\<lparr>ival := ht\<rparr>,
              AcquisitionFrameRateEnable := True,
              AcquisitionFrameRate := (AcquisitionFrameRate dev)\<lparr>fval := r\<rparr>,
              StreamAutoNegotiatePacketSize := True, StreamPacketResendEnable := True,
              streaming := True\<rparr>)"
    by (simp add: configure_def Let_def w ht f)
  then show ?thesis by blast
qed

lemma restore_ok:
  assumes "int_node_ok (Width dev)" and "int_node_ok (Height dev)"
    and "AcquisitionFrameRateEnable dev \<longrightarrow> float_node_ok (AcquisitionFrameRate dev)"
    and "Width dev1 = (Width dev)\<lparr>ival := w\<rparr>" and "Height dev1 = (Height dev)\<lparr>ival := ht\<rparr>"
    and "AcquisitionFrameRate dev1 = (AcquisitionFrameRate dev)\<lparr>fval := r\<rparr>"
  shows "\<exists>dev'. restore dev1 (store_initial dev) = Inr dev'
     \<and> Width dev' = Width dev \<and> Height dev' = Height dev
     \<and> AcquisitionMode dev' = AcquisitionMode dev
     \<and> AcquisitionFrameRateEnable dev' = AcquisitionFrameRateEnable dev
     \<and> (AcquisitionFrameRateEnable dev \<longrightarrow> AcquisitionFrameRate dev' = AcquisitionFrameRate dev)"
proof -
  have w: "SetIntValue (Width dev1) (ival (Width dev)) = Inr (ival (Width dev), Width dev)"
    using SetIntValue_restore [OF assms(1)] by (simp add: assms(4))
  have ht: "SetIntValue (Height dev1) (ival (Height dev)) = Inr (ival (Height dev), Height dev)"
    using SetIntValue_restore [OF assms(2)] by (simp add: assms(5))
  show ?thesis
  proof (cases "AcquisitionFrameRateEnable dev")
    case True
    with assms(3) have "float_node_ok (AcquisitionFrameRate dev)" by simp
    from SetFloatValue_restore [OF this]
    have "SetFloatValue (AcquisitionFrameRate dev1) (fval (AcquisitionFrameRate dev))
            = (fval (AcquisitionFrameRate dev), AcquisitionFrameRate dev)"
      by (simp add: assms(6))
    then show ?thesis
      using True by (simp add: restore_def w ht Let_def store_initial_def)
  next
    case False
    then show ?thesis
      by (simp add: restore_def w ht Let_def store_initial_def)
  qed
qed


lemma configure_ok':
  assumes "0 <s iinc (Width dev)" and "0 <s iinc (Height dev)"
  shows "\<exists>s' dev1 w ht r. configure dev s = Inr (s', dev1)
     \<and> s_numImages s' = s_numImages s
     \<and> Width dev1 = (Width dev)\<lparr>ival := w\<rparr> \<and> Height dev1 = (Height dev)\<lparr>ival := ht\<rparr>
     \<and> AcquisitionFrameRate dev1 = (AcquisitionFrameRate dev)\<lparr>fval := r\<rparr>"
proof -
  from configure_ok [OF assms, of s] obtain w ht r where c: "configure dev s =
     Inr (s\<lparr>s_width := w, s_height := ht, s_fps := r\<rparr>,
          dev\<lparr>AcquisitionMode := ''Continuous'',
              PixelFormat := ''PolarizedAngles_0d_45d_90d_135d_Mono8'',
              Width := (Width dev)\<lparr>ival := w\<rparr>, Height := (Height dev)\<lparr>ival := ht\<rparr>,
              AcquisitionFrameRateEnable := True,
              AcquisitionFrameRate := (AcquisitionFrameRate dev)\<lparr>fval := r\<rparr>,
              StreamAutoNegotiatePacketSize := True, StreamPacketResendEnable := True,
              streaming := True\<rparr>)"
    by blast
  let ?s' = "s\<lparr>s_width := w, s_height := ht, s_fps := r\<rparr>"
  let ?d = "dev\<lparr>AcquisitionMode := ''Continuous'',
              PixelFormat := ''PolarizedAngles_0d_45d_90d_135d_Mono8'',
              Width := (Width dev)\<lparr>ival := w\<rparr>, Height := (Height dev)\<lparr>ival := ht\<rparr>,
              AcquisitionFrameRateEnable := True,
              AcquisitionFrameRate := (AcquisitionFrameRate dev)\<lparr>fval := r\<rparr>,
              StreamAutoNegotiatePacketSize := True, StreamPacketResendEnable := True,
              streaming := True\<rparr>"
  have "configure dev s = Inr (?s', ?d) \<and> s_numImages ?s' = s_numImages s
     \<and> Width ?d = (Width dev)\<lparr>ival := w\<rparr> \<and> Height ?d = (Height dev)\<lparr>ival := ht\<rparr>
     \<and> AcquisitionFrameRate ?d = (AcquisitionFrameRate dev)\<lparr>fval := r\<rparr>"
    using c by simp
  then show ?thesis by blast
qed

text \<open>
  C10. When the arguments parse to a width or a height of 0, \<^verbatim>\<open>main\<close> returns \<open>-1\<close>
  with every device as it found it and no video: the request is refused before the
  device is configured or a stream started.
\<close>

theorem main_rejects_zero_dimension:
  assumes "parse_args strtol strtof (argv env) default_settings = Inr s"
    and "s_width s = 0 \<or> s_height s = 0"
  shows "main cnv strtol strtof env =
           Some (Inr \<lparr>exit_code = - 1, devices_after = devices env, videos = None\<rparr>)"
  using assms by (auto simp: main_def)

lemma parse_zero_width:
  "parse_args strtol_digits (\<lambda>_. Finite 10) (argv zero_width_env) default_settings
     = Inr \<lparr>s_width = 0, s_height = 100, s_numImages = 50, s_fps = Finite 10\<rparr>"
  by (simp add: zero_width_env_def default_settings_def strtol_digits_def)

theorem main_rejects_zero_dimension_witness:
  "parse_args strtol_digits (\<lambda>_. Finite 10) [''-w'', ''0'', ''-h'', ''100''] default_settings
     = Inr \<lparr>s_width = 0, s_height = 100, s_numImages = 50, s_fps = Finite 10\<rparr>
   \<and> main id strtol_digits (\<lambda>_. Finite 10) zero_width_env =
           Some (Inr \<lparr>exit_code = - 1, devices_after = [example_device], videos = None\<rparr>)"
  using main_rejects_zero_dimension [OF parse_zero_width, where cnv = id] parse_zero_width
  by (simp add: zero_width_env_def)

text \<open>
  C8. When a \<^verbatim>\<open>GetImage\<close> call fails before all \<open>numImages\<close> frames are grabbed, the
  session aborts: \<^verbatim>\<open>main\<close> returns \<open>-1\<close> and \<^verbatim>\<open>RecordVideo\<close> is never entered, so no
  recorder exists, none was opened and no output file is finalized.
\<close>

theorem capture_failure_aborts:
  assumes "parse_args strtol strtof (argv env) default_settings = Inr s"
    and "s_width s \<noteq> 0" and "s_height s \<noteq> 0"
    and "answer env = CHR ''y''"
    and "devices env = dev # others"
    and "0 <s iinc (Width dev)" and "0 <s iinc (Height dev)"
    and "k < unat (s_numImages s)" and "GetImage env k = Inl e"
  shows "\<exists>dev'. main cnv strtol strtof env =
           Some (Inr \<lparr>exit_code = - 1, devices_after = dev' # others, videos = None\<rparr>)"
proof -
  from assms(8) have n: "s_numImages s \<noteq> 0"
    by (auto simp: unat_gt_0 [symmetric])
  from configure_ok' [OF assms(6,7), of s] obtain s' dev1
    where c: "configure dev s = Inr (s', dev1)" and n': "s_numImages s' = s_numImages s"
    by blast
  from capture_fails [of 0 k "unat (s_numImages s)" "GetImage env" e "[]" "[]"] assms(8,9)
  obtain e' where f: "capture (GetImage env) (unat (s_numImages s)) 0 [] [] = Inl e'"
    by auto
  have "session cnv env s =
          Some (Inr \<lparr>exit_code = - 1, devices_after = dev1 # others, videos = None\<rparr>)"
    by (simp add: session_def assms(5) n c n' f)
  then show ?thesis
    using assms(1-4) by (simp add: main_def)
qed

lemma parse_example:
  "parse_args strtol_digits (\<lambda>_. Finite 10) [''-w'', ''2'', ''-h'', ''1'', ''-n'', ''2'']
     default_settings
     = Inr \<lparr>s_width = 2, s_height = 1, s_numImages = 2, s_fps = Finite 10\<rparr>"
  by (simp add: default_settings_def strtol_digits_def)

theorem capture_failure_aborts_witness:
  "(1::nat) < unat (2 :: u32) \<and> GetImage timeout_env 1 = Inl GenericException
   \<and> (\<exists>dev'. main id strtol_digits (\<lambda>_. Finite 10) timeout_env =
           Some (Inr \<lparr>exit_code = - 1, devices_after = [dev'], videos = None\<rparr>))"
proof -
  have p: "parse_args strtol_digits (\<lambda>_. Finite 10) (argv timeout_env) default_settings
     = Inr \<lparr>s_width = 2, s_height = 1, s_numImages = 2, s_fps = Finite 10\<rparr>"
    using parse_example by (simp add: timeout_env_def)
  have d: "devices timeout_env = example_device # []"
    by (simp add: timeout_env_def)
  have i: "0 <s iinc (Width example_device)" "0 <s iinc (Height example_device)"
    by (simp_all add: example_device_def word_sless_alt)
  have g: "GetImage timeout_env 1 = Inl GenericException"
    by (simp add: timeout_env_def)
  have k: "1 < unat (s_numImages \<lparr>s_width = 2, s_height = 1, s_numImages = 2, s_fps = Finite 10\<rparr>)"
    by simp
  have y: "answer timeout_env = CHR ''y''"
    by (simp add: timeout_env_def)
  from capture_failure_aborts [OF p _ _ y d i k g, where cnv = id]
  show ?thesis
    using g by simp
qed

text \<open>
  C5 (as amended). When the session runs to completion (a device is found, every
  \<^verbatim>\<open>GetImage\<close> delivers a frame, no exception is thrown), \<^verbatim>\<open>main\<close> returns 0 and the
  settings stored at the start are back on the device: width, height, acquisition mode
  and frame-rate enable, and the frame rate when the frame rate was enabled at the start.
\<close>

theorem main_restores_on_completion:
  assumes "parse_args strtol strtof (argv env) default_settings = Inr s"
    and "s_width s \<noteq> 0" and "s_height s \<noteq> 0"
    and "answer env = CHR ''y''"
    and "devices env = dev # others"
    and "s_numImages s \<noteq> 0"
    and "int_node_ok (Width dev)" and "int_node_ok (Height dev)"
    and "AcquisitionFrameRateEnable dev \<longrightarrow> float_node_ok (AcquisitionFrameRate dev)"
    and "\<forall>i < unat (s_numImages s). \<exists>fr. GetImage env i = Inr fr \<and> captured_frame fr"
  shows "\<exists>dev' rs. main cnv strtol strtof env =
           Some (Inr \<lparr>exit_code = 0, devices_after = dev' # others, videos = Some rs\<rparr>)
     \<and> Width dev' = Width dev \<and> Height dev' = Height dev
     \<and> AcquisitionMode dev' = AcquisitionMode dev
     \<and> AcquisitionFrameRateEnable dev' = AcquisitionFrameRateEnable dev
     \<and> (AcquisitionFrameRateEnable dev \<longrightarrow> AcquisitionFrameRate dev' = AcquisitionFrameRate dev)
     \<and> store_initial dev' = store_initial dev"
proof -
  from assms(7,8) have inc: "0 <s iinc (Width dev)" "0 <s iinc (Height dev)"
    by (simp_all add: int_node_ok_def)
  from configure_ok' [OF inc, of s] obtain w ht r s' dev1
    where c: "configure dev s = Inr (s', dev1)" and n': "s_numImages s' = s_numImages s"
      and d1: "Width dev1 = (Width dev)\<lparr>ival := w\<rparr>" "Height dev1 = (Height dev)\<lparr>ival := ht\<rparr>"
        "AcquisitionFrameRate dev1 = (AcquisitionFrameRate dev)\<lparr>fval := r\<rparr>"
    by blast
  from capture_ok [of 0 "unat (s_numImages s)" "GetImage env" "[]" "[]"] assms(10)
  obtain h images where cap: "capture (GetImage env) (unat (s_numImages s)) 0 [] [] = Inr (h, images)"
    and rf: "\<forall>img \<in> set images. raw_frame h img"
    and len: "length images = unat (s_numImages s)"
    by auto
  from assms(6) len have ne: "images \<noteq> []"
    by (auto simp: unat_eq_0)
  from RecordVideo_returns [OF ne rf, of cnv "s_fps s'"] obtain h' rs
    where rv: "RecordVideo cnv h images (s_fps s') = Some (Inr (h', rs))"
    by blast
  from restore_ok [OF assms(7,8,9), of "dev1\<lparr>streaming := False\<rparr>" w ht r] d1
  obtain dev' where res: "restore (dev1\<lparr>streaming := False\<rparr>) (store_initial dev) = Inr dev'"
    and restored: "Width dev' = Width dev" "Height dev' = Height dev"
      "AcquisitionMode dev' = AcquisitionMode dev"
      "AcquisitionFrameRateEnable dev' = AcquisitionFrameRateEnable dev"
      "AcquisitionFrameRateEnable dev \<longrightarrow> AcquisitionFrameRate dev' = AcquisitionFrameRate dev"
    by auto
  have "session cnv env s =
          Some (Inr \<lparr>exit_code = 0, devices_after = dev' # others, videos = Some rs\<rparr>)"
    by (simp add: session_def assms(5,6) c n' cap rv res Let_def)
  then have "main cnv strtol strtof env =
          Some (Inr \<lparr>exit_code = 0, devices_after = dev' # others, videos = Some rs\<rparr>)"
    using assms(1-4) by (simp add: main_def)
  moreover have "store_initial dev' = store_initial dev"
    using restored by (simp add: store_initial_def)
  ultimately show ?thesis
    using restored by blast
qed

lemma captured_example_frame: "captured_frame (example_frame i)"
  by (simp add: captured_frame_def example_frame_def)

theorem main_restores_on_completion_witness:
  "int_node_ok (Width example_device) \<and> int_node_ok (Height example_device)
   \<and> float_node_ok (AcquisitionFrameRate example_device)
   \<and> (\<exists>dev' rs. main id strtol_digits (\<lambda>_. Finite 10) example_env =
           Some (Inr \<lparr>exit_code = 0, devices_after = [dev'], videos = Some rs\<rparr>)
        \<and> Width dev' = \<lparr>imin = 1, imax = 2448, iinc = 1, ival = 1024\<rparr>
        \<and> Height dev' = \<lparr>imin = 1, imax = 2048, iinc = 1, ival = 768\<rparr>
        \<and> AcquisitionMode dev' = ''SingleFrame''
        \<and> AcquisitionFrameRateEnable dev' = True
        \<and> AcquisitionFrameRate dev' = \<lparr>fmin = Finite 1, fmax = Finite 30, fval = Finite 5\<rparr>)"
proof -
  have p: "parse_args strtol_digits (\<lambda>_. Finite 10) (argv example_env) default_settings
     = Inr \<lparr>s_width = 2, s_height = 1, s_numImages = 2, s_fps = Finite 10\<rparr>"
    using parse_example by (simp add: example_env_def)
  have d: "devices example_env = example_device # []"
    by (simp add: example_env_def)
  have y: "answer example_env = CHR ''y''"
    by (simp add: example_env_def)
  have ok: "int_node_ok (Width example_device)" "int_node_ok (Height example_device)"
    by (simp_all add: int_node_ok_def example_device_def word_sle_eq word_sless_alt)
  have fok: "float_node_ok (AcquisitionFrameRate example_device)"
    by (simp add: float_node_ok_def example_device_def)
  have g: "\<forall>i < unat (s_numImages \<lparr>s_width = 2, s_height = 1, s_numImages = 2, s_fps = Finite 10\<rparr>).
             \<exists>fr. GetImage example_env i = Inr fr \<and> captured_frame fr"
    by (simp add: example_env_def captured_example_frame)
  from main_restores_on_completion [OF p _ _ y d _ ok _ g, where cnv = id] fok
  obtain dev' rs where "main id strtol_digits (\<lambda>_. Finite 10) example_env =
           Some (Inr \<lparr>exit_code = 0, devices_after = [dev'], videos = Some rs\<rparr>)"
    and "Width dev' = Width example_device" "Height dev' = Height example_device"
    "AcquisitionMode dev' = AcquisitionMode example_device"
    "AcquisitionFrameRateEnable dev' = AcquisitionFrameRateEnable example_device"
    "AcquisitionFrameRate dev' = AcquisitionFrameRate example_device"
    by (auto simp: example_device_def)
  then show ?thesis
    using ok fok
    by (intro conjI exI [of _ dev'] exI [of _ rs]) (simp_all add: example_device_def)
qed

text \<open>
  C5 as stated fails on the exception path. The second \<^verbatim>\<open>GetImage\<close> times out: the
  \<^verbatim>\<open>catch\<close> clause only notes the exception, \<^verbatim>\<open>main\<close> returns \<open>-1\<close>, and the device keeps
  the session's width, height, acquisition mode and frame rate (and goes on streaming).
\<close>

theorem main_no_restore_after_exception_counterexample:
  "main id strtol_digits (\<lambda>_. Finite 10) timeout_env =
     Some (Inr \<lparr>exit_code = - 1,
       devices_after =
         [\<lparr>AcquisitionMode = ''Continuous'', AcquisitionFrameRateEnable = True,
           AcquisitionFrameRate = \<lparr>fmin = Finite 1, fmax = Finite 30, fval = Finite 10\<rparr>,
           PixelFormat = ''PolarizedAngles_0d_45d_90d_135d_Mono8'',
           Width = \<lparr>imin = 1, imax = 2448, iinc = 1, ival = 2\<rparr>,
           Height = \<lparr>imin = 1, imax = 2048, iinc = 1, ival = 1\<rparr>,
           StreamAutoNegotiatePacketSize = True, StreamPacketResendEnable = True,
           streaming = True\<rparr>],
       videos = None\<rparr>)
   \<and> store_initial example_device =
       \<lparr>acquisitionModeInitial = ''SingleFrame'', frameRateEnableInitial = True,
        frameRateInitial = Finite 5, imageWidthInitial = 1024, imageHeightInitial = 768\<rparr>
   \<and> store_initial
        \<lparr>AcquisitionMode = ''Continuous'', AcquisitionFrameRateEnable = True,
         AcquisitionFrameRate = \<lparr>fmin = Finite 1, fmax = Finite 30, fval = Finite 10\<rparr>,
         PixelFormat = ''PolarizedAngles_0d_45d_90d_135d_Mono8'',
         Width = \<lparr>imin = 1, imax = 2448, iinc = 1, ival = 2\<rparr>,
         Height = \<lparr>imin = 1, imax = 2048, iinc = 1, ival = 1\<rparr>,
         StreamAutoNegotiatePacketSize = True, StreamPacketResendEnable = True,
         streaming = True\<rparr> =
       \<lparr>acquisitionModeInitial = ''Continuous'', frameRateEnableInitial = True,
        frameRateInitial = Finite 10, imageWidthInitial = 2, imageHeightInitial = 1\<rparr>"
  by code_simp

section \<open>Further behaviour at the edges\<close>

lemma split_step_one_buffer:
  assumes len: "s < length h" "a < length h" and dist: "s \<noteq> a"
    and rd: "unat i + 3 < length (h ! s)" "unat i + 3 < 2 ^ 32"
    and wr: "unat b < length (h ! a)"
  shows "split_step h rd wr s a a a a b i =
         Inr (h[a := (h ! a)[unat b := h ! s ! (unat i + 3)]],
              rd @ [(s, unat i), (s, unat i + 1), (s, unat i + 2), (s, unat i + 3)],
              wr @ group_stores a a a a (unat b))"
proof -
  have u1: "unat (i + 1) = unat i + 1" and u2: "unat (i + 2) = unat i + 2"
    and u3: "unat (i + 3) = unat i + 3"
    using rd(2) by (simp_all add: unat_word_ariths)
  let ?h1 = "h[a := (h ! a)[unat b := h ! s ! unat i]]"
  let ?h2 = "h[a := (h ! a)[unat b := h ! s ! (unat i + 1)]]"
  let ?h3 = "h[a := (h ! a)[unat b := h ! s ! (unat i + 2)]]"
  let ?h4 = "h[a := (h ! a)[unat b := h ! s ! (unat i + 3)]]"
  have d: "a \<noteq> s" using dist by simp
  have c1: "\<And>r w. copy_byte h r w s (unat i) a (unat b)
                 = Inr (?h1, r @ [(s, unat i)], w @ [(a, unat b)])"
    using len rd(1) wr by (simp add: copy_byte_ok)
  have c2: "\<And>r w. copy_byte ?h1 r w s (unat (i + 1)) a (unat b)
                 = Inr (?h2, r @ [(s, unat i + 1)], w @ [(a, unat b)])"
    using copy_byte_ok [of s ?h1 "unat i + 1" a "unat b"] len d rd(1) wr
    by (simp add: u1)
  have c3: "\<And>r w. copy_byte ?h2 r w s (unat (i + 2)) a (unat b)
                 = Inr (?h3, r @ [(s, unat i + 2)], w @ [(a, unat b)])"
    using copy_byte_ok [of s ?h2 "unat i + 2" a "unat b"] len d rd(1) wr
    by (simp add: u2)
  have c4: "\<And>r w. copy_byte ?h3 r w s (unat (i + 3)) a (unat b)
                 = Inr (?h4, r @ [(s, unat i + 3)], w @ [(a, unat b)])"
    using copy_byte_ok [of s ?h3 "unat i + 3" a "unat b"] len d rd(1) wr
    by (simp add: u3)
  show ?thesis
    by (simp only: split_step_def c1 c2 c3 c4 sum.case prod.case group_stores_def
          append_assoc append.simps)
qed

lemma split_loop_one_buffer_run:
  assumes len: "s < length h" "a < length h" and dist: "s \<noteq> a"
    and idx: "unat i = 4 * j" "unat b = j"
    and bnd: "4 * (j + r) \<le> length (h ! s)" "4 * (j + r) < 2 ^ 32"
    and wr: "j + r \<le> length (h ! a)"
    and stop: "unat bs \<le> 4 * (j + r)" "r = 0 \<or> 4 * (j + r) < unat bs + 4"
  shows "split_loop h s a a a a bs rd wr b i =
         Some (Inr (h[a := demux_from (h ! s) 3 (h ! a) j r],
                    rd @ map (Pair s) [4 * j ..< 4 * (j + r)],
                    wr @ concat (map (group_stores a a a a) [j ..< j + r])))"
  using assms
proof (induction r arbitrary: h rd wr j b i)
  case 0
  then have "\<not> ucast i < bs"
    by (simp add: ucast_u32_less_iff)
  then show ?case
    by (subst split_loop.simps) simp
next
  case (Suc r)
  let ?S = "h ! s"
  let ?h1 = "h[a := (h ! a)[unat b := ?S ! (unat i + 3)]]"
  have d: "a \<noteq> s" using Suc.prems(3) by simp
  have cont: "ucast i < bs"
    using Suc.prems by (simp add: ucast_u32_less_iff)
  let ?rd1 = "rd @ [(s, unat i), (s, unat i + 1), (s, unat i + 2), (s, unat i + 3)]"
  let ?wr1 = "wr @ group_stores a a a a (unat b)"
  have step: "split_step h rd wr s a a a a b i = Inr (?h1, ?rd1, ?wr1)"
    using Suc.prems by (intro split_step_one_buffer) simp_all
  have i4: "unat (i + 4) = 4 * Suc j" and b1: "unat (b + 1) = Suc j"
    and i123: "unat (i + 1) = 4 * j + 1" "unat (i + 2) = 4 * j + 2" "unat (i + 3) = 4 * j + 3"
    using Suc.prems(4,5,7) by (simp_all add: unat_word_ariths)
  have S1: "?h1 ! s = ?S"
    using d by simp
  have o: "?h1 ! a = (h ! a)[j := ?S ! (4 * j + 3)]"
    using Suc.prems(2,4,5) by simp
  have IH: "split_loop ?h1 s a a a a bs ?rd1 ?wr1 (b + 1) (i + 4) =
            Some (Inr (?h1[a := demux_from (?h1 ! s) 3 (?h1 ! a) (Suc j) r],
                    ?rd1 @ map (Pair s) [4 * Suc j ..< 4 * (Suc j + r)],
                    ?wr1 @ concat (map (group_stores a a a a) [Suc j ..< Suc j + r])))"
    using Suc.prems d by (intro Suc.IH) (simp_all add: i4 b1 S1 o)
  have heap_eq: "?h1[a := demux_from (?h1 ! s) 3 (?h1 ! a) (Suc j) r]
              = h[a := demux_from ?S 3 (h ! a) j (Suc r)]"
    unfolding S1 o by simp
  have rd_eq: "?rd1 @ map (Pair s) [4 * Suc j ..< 4 * (Suc j + r)]
                 = rd @ map (Pair s) [4 * j ..< 4 * (j + Suc r)]"
    unfolding upt_group Suc.prems(4) by simp
  have "[j ..< j + Suc r] = j # [Suc j ..< Suc j + r]"
    by (simp add: upt_conv_Cons)
  then have wr_eq: "?wr1 @ concat (map (group_stores a a a a) [Suc j ..< Suc j + r])
                 = wr @ concat (map (group_stores a a a a) [j ..< j + Suc r])"
    unfolding Suc.prems(5) by simp
  show ?case
    by (subst split_loop.simps)
       (simp only: cont if_True step sum.case prod.case IH heap_eq rd_eq wr_eq)
qed

text \<open>
  The loop does not care whether its four output pointers differ. Were they one array of
  \<open>w * h\<close> cells, every cell \<open>k\<close> would end with the sample written last,
  \<open>RawFrame[4k + 3]\<close>.
\<close>

lemma split_loop_one_buffer:
  assumes "s < length h" and "a < length h" and "s \<noteq> a"
    and "length (h ! s) = 4 * n" and "length (h ! a) = n" and "0 < n" and "4 * n < 2 ^ 32"
    and "unat bs = 4 * n - 1"
  shows "split_loop h s a a a a bs [] [] 0 0 =
         Some (Inr (h[a := channel 3 (h ! s)], map (Pair s) [0 ..< 4 * n],
                    concat (map (group_stores a a a a) [0 ..< n])))"
proof -
  have "split_loop h s a a a a bs [] [] 0 0 =
         Some (Inr (h[a := demux_from (h ! s) 3 (h ! a) 0 n],
                    [] @ map (Pair s) [4 * 0 ..< 4 * (0 + n)],
                    [] @ concat (map (group_stores a a a a) [0 ..< 0 + n])))"
    using assms by (intro split_loop_one_buffer_run) simp_all
  then show ?thesis
    using demux_from_channel [OF assms(5,4), of 3] by simp
qed

text \<open>
  One byte filled in beyond the last whole group: the usable length is 8, the loads are
  the offsets 0 to 7 and the ninth byte is dropped rather than read.
\<close>

lemma split_frame_drops_trailing_byte:
  "unat (imgSizeFilled long_image - 1) = 8
   \<and> length (long_heap ! imgData long_image) = 9
   \<and> loads_of (split_frame long_heap long_image)
       = [(0, 0), (0, 1), (0, 2), (0, 3), (0, 4), (0, 5), (0, 6), (0, 7)]"
  by (simp add: long_image_def long_heap_def) code_simp

text \<open>
  A frame cut short inside a group is not a RawFrame. With six bytes filled the usable
  length is 5, the guard \<open>4 < 5\<close> lets the second group in, and its third load is outside
  the buffer.
\<close>

lemma split_frame_short_frame:
  "\<not> raw_frame short_heap short_image
   \<and> unat (imgSizeFilled short_image - 1) = 5
   \<and> length (short_heap ! imgData short_image) = 6
   \<and> split_frame short_heap short_image = Some (Inl OutOfBounds)"
  by (simp add: raw_frame_def short_image_def short_heap_def) code_simp

text \<open>
  An image with nothing filled in: \<^verbatim>\<open>GetSizeFilled() - 1\<close> wraps to \<open>2 ^ 64 - 1\<close>, the
  loop is entered, and its first read is outside the buffer.
\<close>

lemma split_frame_nothing_filled:
  "split_frame [[]] \<lparr>imgWidth = 0, imgHeight = 0, imgSizeFilled = 0, imgData = 0\<rparr>
     = Some (Inl OutOfBounds)"
  by code_simp

text \<open>\<^verbatim>\<open>RecordVideo\<close> on an empty vector reads \<^verbatim>\<open>images[0]\<close>.\<close>

lemma RecordVideo_no_images:
  "RecordVideo cnv h [] fps = Some (Inl OutOfBounds)"
  by (simp add: RecordVideo_def)

text \<open>
  A frame rate of zero or less is refused while the arguments are parsed, before the
  device is touched.
\<close>

lemma main_rejects_nonpositive_fps:
  assumes "argv env = ''-fps'' # v # rest" and "dle (strtof v) (Finite 0)"
  shows "main cnv strtol strtof env =
           Some (Inr \<lparr>exit_code = - 1, devices_after = devices env, videos = None\<rparr>)"
  using assms by (simp add: main_def)

text \<open>A NaN frame rate is not refused: \<^verbatim>\<open>fps <= 0\<close> is false for it.\<close>

lemma parse_args_accepts_NaN_fps:
  assumes "strtof v = NaN"
  shows "parse_args strtol strtof [''-fps'', v] s = Inr (s\<lparr>s_fps := NaN\<rparr>)"
  using assms by simp

text \<open>
  A request that lies in the node's range and on its increment grid is set and returned
  as it is.
\<close>

lemma SetIntValue_keeps_valid_request:
  assumes "int_node_ok (n\<lparr>ival := x\<rparr>)"
  shows "SetIntValue n x = Inr (x, n\<lparr>ival := x\<rparr>)"
  using SetIntValue_restore [OF assms, of "ival n"] by simp

end
